theory Spec2Isabelle
  imports
    Main
    "HOL-Library.AList"
    "HOL-Library.Sublist"
    "HOL-Library.Char_ord"
    "HOL-Library.List_Lexorder"
begin

section \<open>git-code-golf: the aggregation and reconciliation core\<close>

text \<open>
  A shallow embedding of \<^verbatim>\<open>git-code-golf.py\<close>. Python strings are \<open>string\<close>; their
  order (\<^verbatim>\<open>date <= ...\<close>, \<^verbatim>\<open>sorted\<close>) is the lexicographic order of
  \<open>List_Lexorder\<close> over \<open>Char_ord\<close>. A Python \<^verbatim>\<open>dict\<close> is an association list
  in insertion order; \<open>AList.update\<close> replaces the value of a present key in place and
  appends an absent one, as assignment to a dict key does. Every \<^verbatim>\<open>raise\<close>, failed
  \<^verbatim>\<open>assert\<close> and failing library call is a value \<open>Inl e\<close>.
\<close>

subsection \<open>Errors\<close>

datatype error =
    KeyError string
  | KeyErrorPair "string \<times> string"
  | IndexError
  | AssertionError
  | Exception string
  | FileNotFoundError string
  | NotADirectoryError string
  | IsADirectoryError string
  | FileExistsError string
  | SystemExit nat

text \<open>A \<^verbatim>\<open>for\<close> loop whose body may raise: the first error ends the loop.\<close>

fun for_each :: "('a \<Rightarrow> 's \<Rightarrow> 'e + 's) \<Rightarrow> 'a list \<Rightarrow> 's \<Rightarrow> 'e + 's" where
  "for_each body [] s = Inr s"
| "for_each body (x # xs) s =
     (case body x s of Inl e \<Rightarrow> Inl e | Inr s' \<Rightarrow> for_each body xs s')"

subsection \<open>Constants\<close>

definition LANGUAGE_NAMES_EXTENSIONS :: "(string \<times> string \<times> string) list" where
  "LANGUAGE_NAMES_EXTENSIONS = [
    (''fish'', ''><>'', ''fish''),
    (''assembly'', ''Assembly'', ''asm''),
    (''awk'', ''AWK'', ''awk''),
    (''bash'', ''Bash'', ''sh''),
    (''basic'', ''BASIC'', ''bas''),
    (''Berry'', ''Berry'', ''brr''),
    (''brainfuck'', ''Brainfuck'', ''bf''),
    (''c'', ''C'', ''c''),
    (''c-sharp'', ''C#'', ''cs''),
    (''cpp'', ''C++'', ''cpp''),
    (''cobol'', ''COBOL'', ''cob''),
    (''crystal'', ''Crystal'', ''cr''),
    (''d'', ''D'', ''d''),
    (''dart'', ''Dart'', ''dart''),
    (''elixir'', ''Elixir'', ''ex''),
    (''f-sharp'', ''F#'', ''fs''),
    (''factor'', ''Factor'', ''factor''),
    (''forth'', ''Forth'', ''fth''),
    (''fortran'', ''Fortran'', ''f''),
    (''go'', ''Go'', ''go''),
    (''golfscript'', ''GolfScript'', ''gs''),
    (''haskell'', ''Haskell'', ''hs''),
    (''hexagony'', ''Hexagony'', ''hxg''),
    (''j'', ''J'', ''ijs''),
    (''janet'', ''Janet'', ''janet''),
    (''java'', ''Java'', ''java''),
    (''javascript'', ''JavaScript'', ''js''),
    (''julia'', ''Julia'', ''jl''),
    (''k'', ''K'', ''k''),
    (''lisp'', ''Lisp'', ''lsp''),
    (''lua'', ''Lua'', ''lua''),
    (''nim'', ''Nim'', ''nim''),
    (''ocaml'', ''OCaml'', ''ml''),
    (''pascal'', ''Pascal'', ''pas''),
    (''perl'', ''Perl'', ''pl''),
    (''php'', ''PHP'', ''php''),
    (''powershell'', ''PowerShell'', ''ps1''),
    (''prolog'', ''Prolog'', ''pl''),
    (''python'', ''Python'', ''py''),
    (''r'', ''R'', ''r''),
    (''raku'', ''Raku'', ''raku''),
    (''ruby'', ''Ruby'', ''rb''),
    (''rust'', ''Rust'', ''rs''),
    (''sed'', ''sed'', ''sed''),
    (''sql'', ''SQL'', ''sql''),
    (''swift'', ''Swift'', ''swift''),
    (''tcl'', ''Tcl'', ''tcl''),
    (''tex'', ''TeX'', ''tex''),
    (''v'', ''V'', ''v''),
    (''viml'', ''VimL'', ''vim''),
    (''wren'', ''Wren'', ''wren''),
    (''zig'', ''Zig'', ''zig'')]"

definition DEFAULT_IGNORE_LIST :: "string list" where
  "DEFAULT_IGNORE_LIST = [''.git'', ''.gitignore'', ''.github'', ''README.md'', ''LICENSE'']"

datatype FileStructure =
    LANGUAGE_HOLE_EXTENSION
  | HOLE_LANGUAGE_EXTENSION
  | HOLE_SOLUTION_EXTENSION
  | HOLE_EXTENSION

subsection \<open>Path layout: \<^verbatim>\<open>get_solution_path\<close>\<close>

text \<open>
  \<^verbatim>\<open>LANGUAGE_NAMES_EXTENSIONS[language_code]\<close> raises \<^verbatim>\<open>KeyError\<close> for an absent key,
  before anything else is computed. \<^verbatim>\<open>if category\<close> is Python truthiness: both
  \<^verbatim>\<open>None\<close> and the empty string give no suffix. The final \<^verbatim>\<open>else: raise Exception\<close>
  has no counterpart: the four constructors are all the values of the enumeration.
\<close>

definition get_solution_path ::
  "FileStructure \<Rightarrow> string \<Rightarrow> string \<Rightarrow> string option \<Rightarrow> error + string" where
  "get_solution_path file_structure hole_code language_code category =
     (case map_of LANGUAGE_NAMES_EXTENSIONS language_code of
        None \<Rightarrow> Inl (KeyError language_code)
      | Some (_, extension) \<Rightarrow>
          let category_suffix =
                (case category of
                   None \<Rightarrow> []
                 | Some c \<Rightarrow> if c \<noteq> [] then ''-'' @ c else [])
          in Inr (case file_structure of
                LANGUAGE_HOLE_EXTENSION \<Rightarrow>
                  language_code @ ''/'' @ hole_code @ category_suffix @ ''.'' @ extension
              | HOLE_LANGUAGE_EXTENSION \<Rightarrow>
                  hole_code @ ''/'' @ language_code @ category_suffix @ ''.'' @ extension
              | HOLE_SOLUTION_EXTENSION \<Rightarrow>
                  hole_code @ ''/solution'' @ category_suffix @ ''.'' @ extension
              | HOLE_EXTENSION \<Rightarrow>
                  hole_code @ category_suffix @ ''.'' @ extension))"

subsection \<open>Aggregation: \<^verbatim>\<open>compute_final_state\<close>\<close>

record solution =
  hole :: string
  lang :: string
  scoring :: string
  submitted :: string
  code :: string

text \<open>
  Three kinds of dict of the source carry a \<^verbatim>\<open>"content"\<close> key: the values of the target
  mapping (\<^verbatim>\<open>{"content", "date"}\<close>), the children of the tree walk
  (\<^verbatim>\<open>{"parts", "content"}\<close>) and the entries of the changeset
  (\<^verbatim>\<open>{"path", "content"}\<close>). They are extensions of one record, which lets all three
  keep the field name.
\<close>

record file_data =
  content :: string

record target = file_data +
  date :: string

record child = file_data +
  parts :: "string list"

record entry = file_data +
  path :: string

type_synonym state = "(string \<times> target) list"

text \<open>The first loop: the set of distinct codes of every (hole, lang) pair.\<close>

definition add_code ::
  "solution \<Rightarrow> (string \<times> string \<rightharpoonup> string set) \<Rightarrow> (string \<times> string \<rightharpoonup> string set)" where
  "add_code s codes_per_solution =
     (let key = (hole s, lang s);
          codes_per_solution' =
            (if codes_per_solution key = None then codes_per_solution(key \<mapsto> {})
             else codes_per_solution)
      in case codes_per_solution' key of
           None \<Rightarrow> codes_per_solution'
         | Some codes \<Rightarrow> codes_per_solution'(key \<mapsto> insert (code s) codes))"

definition collect_codes :: "solution list \<Rightarrow> (string \<times> string \<rightharpoonup> string set)" where
  "collect_codes solutions = fold add_code solutions Map.empty"

text \<open>\<^verbatim>\<open>not only_category\<close>: true for \<^verbatim>\<open>None\<close> and for the empty string.\<close>

definition py_not :: "string option \<Rightarrow> bool" where
  "py_not v = (case v of None \<Rightarrow> True | Some s \<Rightarrow> s = [])"

text \<open>The body of the second loop; \<^verbatim>\<open>continue\<close> returns the state unchanged.\<close>

definition process_solution ::
  "FileStructure \<Rightarrow> string option \<Rightarrow> bool \<Rightarrow> (string \<times> string \<rightharpoonup> string set) \<Rightarrow>
   solution \<Rightarrow> state \<Rightarrow> error + state" where
  "process_solution file_structure only_category collapse_same_categories codes_per_solution
       s state =
     (let hole_code = hole s; language_code = lang s; category = scoring s;
          date' = submitted s; code' = code s
      in case codes_per_solution (hole_code, language_code) of
           None \<Rightarrow> Inl (KeyErrorPair (hole_code, language_code))
         | Some codes \<Rightarrow>
             let unique = (card codes = 1) in
             if only_category \<noteq> None \<and> only_category \<noteq> Some category then Inr state
             else
               (case get_solution_path file_structure hole_code language_code
                       (if collapse_same_categories \<and> unique \<and> py_not only_category
                        then None else Some category) of
                  Inl e \<Rightarrow> Inl e
                | Inr path' \<Rightarrow>
                    (case map_of state path' of
                       Some old \<Rightarrow>
                         if date' \<le> date old then Inr state
                         else Inr (AList.update path' \<lparr>content = code', date = date'\<rparr> state)
                     | None \<Rightarrow>
                         Inr (AList.update path' \<lparr>content = code', date = date'\<rparr> state))))"

definition compute_final_state ::
  "FileStructure \<Rightarrow> string option \<Rightarrow> bool \<Rightarrow> solution list \<Rightarrow> error + state" where
  "compute_final_state file_structure only_category collapse_same_categories solutions =
     for_each
       (process_solution file_structure only_category collapse_same_categories
          (collect_codes solutions))
       solutions []"

subsection \<open>The filesystem\<close>

text \<open>
  The filesystem is a store from path strings to what is there: a regular file with its
  bytes, a directory with the names \<^verbatim>\<open>os.listdir\<close> returns, or something that exists and is
  neither (a FIFO, a socket, a device). Each \<^verbatim>\<open>os\<close> call of the source is a query of the
  store at the path string it is given.
\<close>

datatype node = File string | Dir "string list" | Other

type_synonym filesystem = "string \<Rightarrow> node option"

definition os_path_exists :: "filesystem \<Rightarrow> string \<Rightarrow> bool" where
  "os_path_exists fs p = (fs p \<noteq> None)"

definition os_path_isfile :: "filesystem \<Rightarrow> string \<Rightarrow> bool" where
  "os_path_isfile fs p = (case fs p of Some (File _) \<Rightarrow> True | _ \<Rightarrow> False)"

definition os_path_isdir :: "filesystem \<Rightarrow> string \<Rightarrow> bool" where
  "os_path_isdir fs p = (case fs p of Some (Dir _) \<Rightarrow> True | _ \<Rightarrow> False)"

definition os_listdir :: "filesystem \<Rightarrow> string \<Rightarrow> error + string list" where
  "os_listdir fs p =
     (case fs p of
        Some (Dir names) \<Rightarrow> Inr names
      | Some _ \<Rightarrow> Inl (NotADirectoryError p)
      | None \<Rightarrow> Inl (FileNotFoundError p))"

text \<open>
  \<^verbatim>\<open>posixpath.join(a, b)\<close>: an absolute \<open>b\<close> replaces \<open>a\<close>; otherwise a separator is
  inserted unless \<open>a\<close> is empty or already ends with one.
\<close>

definition os_path_join :: "string \<Rightarrow> string \<Rightarrow> string" where
  "os_path_join a b =
     (if b \<noteq> [] \<and> hd b = CHR ''/'' then b
      else if a = [] \<or> last a = CHR ''/'' then a @ b
      else a @ ''/'' @ b)"

text \<open>\<^verbatim>\<open>str.split(sep)\<close> for a one-character separator: never the empty list.\<close>

fun str_split :: "char \<Rightarrow> string \<Rightarrow> string list" where
  "str_split sep [] = [[]]"
| "str_split sep (c # cs) =
     (if c = sep then [] # str_split sep cs
      else (case str_split sep cs of
              [] \<Rightarrow> [[c]]
            | w # ws \<Rightarrow> (c # w) # ws))"

text \<open>
  \<^verbatim>\<open>open(file_path, "r").read()\<close> reads in text mode with universal newlines: every
  \<^verbatim>\<open>"\r\n"\<close> and every remaining \<^verbatim>\<open>"\r"\<close> of the file comes back as \<^verbatim>\<open>"\n"\<close>.
  \<^verbatim>\<open>open(file_path, "w").write(content)\<close> translates \<^verbatim>\<open>"\n"\<close> to \<^verbatim>\<open>os.linesep\<close>, which on
  POSIX is \<^verbatim>\<open>"\n"\<close> itself, so the bytes written are the string. (The character
  encoding is taken to round-trip. The program reads a path only after
  \<^verbatim>\<open>os.path.isfile\<close> has answered yes, so the other cases of \<open>read_text\<close> are never
  reached.)
\<close>

fun universal_newlines :: "string \<Rightarrow> string" where
  "universal_newlines [] = []"
| "universal_newlines [c] = (if c = CHR 0x0D then [CHR 0x0A] else [c])"
| "universal_newlines (c # d # cs) =
     (if c = CHR 0x0D \<and> d = CHR 0x0A then CHR 0x0A # universal_newlines cs
      else if c = CHR 0x0D then CHR 0x0A # universal_newlines (d # cs)
      else c # universal_newlines (d # cs))"

definition read_text :: "filesystem \<Rightarrow> string \<Rightarrow> error + string" where
  "read_text fs p =
     (case fs p of
        Some (File bytes) \<Rightarrow> Inr (universal_newlines bytes)
      | Some (Dir _) \<Rightarrow> Inl (IsADirectoryError p)
      | Some Other \<Rightarrow> Inr []
      | None \<Rightarrow> Inl (FileNotFoundError p))"

subsection \<open>Reconciliation: \<^verbatim>\<open>compute_changes\<close>\<close>

record changes =
  to_delete :: "string list"
  files_to_update :: "entry list"
  files_to_create :: "entry list"
  directories_to_create :: "string list"

definition no_changes :: changes where
  "no_changes =
     \<lparr>to_delete = [], files_to_update = [], files_to_create = [], directories_to_create = []\<rparr>"

text \<open>
  The dict \<^verbatim>\<open>needed\<close>: the children grouped by their first part, groups in order of
  first appearance, children in their order. \<^verbatim>\<open>child["parts"][0]\<close> raises
  \<^verbatim>\<open>IndexError\<close> on a child with no part. The two statements of the loop body (start
  an absent group with the empty list, then append the child) are one update here.
\<close>

type_synonym needed = "(string \<times> child list) list"

definition add_needed :: "child \<Rightarrow> needed \<Rightarrow> error + needed" where
  "add_needed c needed =
     (case parts c of
        [] \<Rightarrow> Inl IndexError
      | head # _ \<Rightarrow>
          Inr (AList.update head
                 ((case map_of needed head of None \<Rightarrow> [] | Some cs \<Rightarrow> cs) @ [c]) needed))"

definition build_needed :: "child list \<Rightarrow> error + needed" where
  "build_needed children = for_each add_needed children []"

text \<open>
  The body of \<^verbatim>\<open>for file in all_files\<close>. The loop state is the four lists and
  \<^verbatim>\<open>explore\<close>. \<^verbatim>\<open>assert len(files_data) == 1\<close> and \<^verbatim>\<open>files_data[0]\<close> are the
  one-element pattern of the \<open>case\<close>.
\<close>

definition visit ::
  "filesystem \<Rightarrow> bool \<Rightarrow> string \<Rightarrow> needed \<Rightarrow> string \<Rightarrow> changes \<times> string list \<Rightarrow>
   error + changes \<times> string list" where
  "visit fs should_delete current_directory needed file st =
     (let ch = fst st; explore = snd st;
          file_path = os_path_join current_directory file;
          exists = os_path_exists fs file_path;
          file_exists = os_path_isfile fs file_path;
          directory_exists = os_path_isdir fs file_path
      in case map_of needed file of
           Some files_data \<Rightarrow>
             let is_directory = (\<forall>fd \<in> set files_data. length (parts fd) > 1) in
             if is_directory then
               (if \<not> exists then
                  Inr (ch\<lparr>directories_to_create := directories_to_create ch @ [file_path]\<rparr>,
                       explore @ [file])
                else if \<not> directory_exists then
                  (if \<not> should_delete then
                     Inl (Exception (file_path @ '' exists and is not a directory''))
                   else
                     Inr (ch\<lparr>to_delete := to_delete ch @ [file_path],
                             directories_to_create := directories_to_create ch @ [file_path]\<rparr>,
                          explore @ [file]))
                else Inr (ch, explore @ [file]))
             else
               (case files_data of
                  [fd] \<Rightarrow>
                    let content' = content fd;
                        entry = \<lparr>content = content', path = file_path\<rparr>
                    in if \<not> exists then
                         Inr (ch\<lparr>files_to_create := files_to_create ch @ [entry]\<rparr>, explore)
                       else if file_exists then
                         (case read_text fs file_path of
                            Inl e \<Rightarrow> Inl e
                          | Inr current_content \<Rightarrow>
                              if current_content \<noteq> content' then
                                Inr (ch\<lparr>files_to_update := files_to_update ch @ [entry]\<rparr>,
                                     explore)
                              else Inr (ch, explore))
                       else
                         (if \<not> should_delete then
                            Inl (Exception (file_path @ '' exists and is not a file''))
                          else
                            Inr (ch\<lparr>to_delete := to_delete ch @ [file_path],
                                    files_to_create := files_to_create ch @ [entry]\<rparr>,
                                 explore))
                | _ \<Rightarrow> Inl AssertionError)
         | None \<Rightarrow>
             if should_delete \<and> file \<notin> set DEFAULT_IGNORE_LIST then
               Inr (ch\<lparr>to_delete := to_delete ch @ [file_path]\<rparr>, explore)
             else Inr (ch, explore))"

text \<open>\<^verbatim>\<open>{**child, "parts": child["parts"][1:]}\<close>\<close>

definition advance :: "child \<Rightarrow> child" where
  "advance c = c\<lparr>parts := tl (parts c)\<rparr>"

text \<open>
  \<^verbatim>\<open>os.listdir(current_directory) if os.path.exists(current_directory) else []\<close>
\<close>

definition current_listing :: "filesystem \<Rightarrow> string \<Rightarrow> error + string list" where
  "current_listing fs current_directory =
     (if os_path_exists fs current_directory then os_listdir fs current_directory else Inr [])"

text \<open>\<^verbatim>\<open>sorted(set(current_directory_files).union(set(key for key in needed)))\<close>\<close>

definition all_files_of :: "string list \<Rightarrow> needed \<Rightarrow> string list" where
  "all_files_of current_directory_files needed =
     sorted_list_of_set (set current_directory_files \<union> set (map fst needed))"

definition scan ::
  "filesystem \<Rightarrow> bool \<Rightarrow> string \<Rightarrow> needed \<Rightarrow> string list \<Rightarrow> changes \<Rightarrow>
   error + changes \<times> string list" where
  "scan fs should_delete current_directory needed all_files ch =
     for_each (visit fs should_delete current_directory needed) all_files (ch, [])"

subsection \<open>The recursive walk\<close>

text \<open>
  The walk recurses into the names of \<^verbatim>\<open>explore\<close>, each with the children of its group
  advanced by one part. It terminates because every group explored is a non-empty part of
  the children whose members all lose a part.
\<close>

definition group_of :: "string \<Rightarrow> child list \<Rightarrow> child list" where
  "group_of h cs = filter (\<lambda>c. parts c \<noteq> [] \<and> hd (parts c) = h) cs"

definition dir_needed :: "needed \<Rightarrow> string \<Rightarrow> bool" where
  "dir_needed needed f =
     (case map_of needed f of
        Some cs \<Rightarrow> \<forall>c \<in> set cs. 1 < length (parts c)
      | None \<Rightarrow> False)"

lemma for_each_cong [fundef_cong]:
  "xs = ys \<Longrightarrow> s = t \<Longrightarrow> (\<And>x s. x \<in> set ys \<Longrightarrow> f x s = g x s) \<Longrightarrow>
   for_each f xs s = for_each g ys t"
proof (induction ys arbitrary: xs s t)
  case Nil
  then show ?case by simp
next
  case (Cons y ys)
  then show ?case by (auto split: sum.splits)
qed

lemma group_of_simps:
  "group_of h [] = []"
  "group_of h (c # cs) = (if parts c \<noteq> [] \<and> hd (parts c) = h then c # group_of h cs else group_of h cs)"
  by (simp_all add: group_of_def)

lemma for_each_add_needed:
  "for_each add_needed cs acc = Inr needed \<Longrightarrow>
     (\<forall>c \<in> set cs. parts c \<noteq> []) \<and>
     (\<forall>h. map_of needed h =
        (if group_of h cs = [] then map_of acc h
         else Some ((case map_of acc h of None \<Rightarrow> [] | Some x \<Rightarrow> x) @ group_of h cs)))"
proof (induction cs arbitrary: acc)
  case Nil
  then show ?case by (simp add: group_of_simps)
next
  case (Cons c cs)
  from Cons.prems obtain h0 rest where pc: "parts c = h0 # rest"
    by (cases "parts c") (auto simp: add_needed_def)
  define acc' where
    "acc' = AList.update h0 ((case map_of acc h0 of None \<Rightarrow> [] | Some x \<Rightarrow> x) @ [c]) acc"
  from pc have "add_needed c acc = Inr acc'"
    by (simp add: add_needed_def acc'_def)
  with Cons.prems have run: "for_each add_needed cs acc' = Inr needed"
    by simp
  note ih = Cons.IH [OF run]
  have m: "map_of acc' h =
      (if h = h0 then Some ((case map_of acc h0 of None \<Rightarrow> [] | Some x \<Rightarrow> x) @ [c])
       else map_of acc h)" for h
    by (simp add: acc'_def update_conv')
  show ?case
  proof (intro conjI ballI allI)
    fix x assume "x \<in> set (c # cs)"
    with ih pc show "parts x \<noteq> []" by auto
  next
    fix h
    show "map_of needed h =
        (if group_of h (c # cs) = [] then map_of acc h
         else Some ((case map_of acc h of None \<Rightarrow> [] | Some x \<Rightarrow> x) @ group_of h (c # cs)))"
      using ih m [of h] pc by (auto simp: group_of_simps split: option.splits)
  qed
qed

lemma build_needed_lookup:
  assumes "build_needed children = Inr needed"
  shows "map_of needed h = (if group_of h children = [] then None else Some (group_of h children))"
    and "\<And>c. c \<in> set children \<Longrightarrow> parts c \<noteq> []"
  using for_each_add_needed [OF assms [unfolded build_needed_def]] by auto

lemma visit_explore:
  "visit fs sd cur needed f (ch, ex) = Inr (ch', ex') \<Longrightarrow>
   ex' = (if dir_needed needed f then ex @ [f] else ex)"
  by (auto simp: visit_def dir_needed_def Let_def
           split: option.splits list.splits sum.splits if_splits)

lemma for_each_visit_explore:
  "for_each (visit fs sd cur needed) names (ch, ex) = Inr (ch', ex') \<Longrightarrow>
   ex' = ex @ filter (dir_needed needed) names"
proof (induction names arbitrary: ch ex)
  case Nil
  then show ?case by simp
next
  case (Cons f names)
  from Cons.prems obtain ch1 ex1 where
    v: "visit fs sd cur needed f (ch, ex) = Inr (ch1, ex1)" and
    r: "for_each (visit fs sd cur needed) names (ch1, ex1) = Inr (ch', ex')"
    by (auto split: sum.splits)
  from visit_explore [OF v] Cons.IH [OF r] show ?case by simp
qed

lemma scan_explore:
  "scan fs sd cur needed names ch = Inr (ch', ex') \<Longrightarrow> ex' = filter (dir_needed needed) names"
  using for_each_visit_explore [of fs sd cur needed names ch "[]" ch' ex']
  by (simp add: scan_def)

lemma sum_list_filter_le:
  "sum_list (map f (filter P xs)) \<le> sum_list (map (f :: 'a \<Rightarrow> nat) xs)"
  by (induction xs) auto

lemma advance_decreases:
  assumes "cs \<noteq> []" and "\<forall>c \<in> set cs. 1 < length (parts c)"
  shows "sum_list (map (\<lambda>c. length (parts (advance c))) cs) < sum_list (map (\<lambda>c. length (parts c)) cs)"
  using assms
proof (induction cs)
  case Nil
  then show ?case by simp
next
  case (Cons c cs)
  have step: "length (parts (advance c)) < length (parts c)"
    using Cons.prems(2) by (auto simp: advance_def)
  show ?case
  proof (cases "cs = []")
    case True
    with step show ?thesis by simp
  next
    case False
    with Cons have "sum_list (map (\<lambda>c. length (parts (advance c))) cs)
        < sum_list (map (\<lambda>c. length (parts c)) cs)" by simp
    with step show ?thesis by simp
  qed
qed

lemma explore_group_decreases:
  assumes b: "build_needed children = Inr needed"
    and s: "scan fs sd cur needed names ch = Inr r"
    and r: "(ch', explore) = r"
    and f: "f \<in> set explore"
    and m: "map_of needed f = Some cs"
  shows "sum_list (map ((\<lambda>c. length (parts c)) \<circ> advance) cs)
       < sum_list (map (\<lambda>c. length (parts c)) children)"
proof -
  from build_needed_lookup(1) [OF b, of f] m
  have cs: "cs = group_of f children" and ne: "cs \<noteq> []"
    by (auto split: if_splits)
  from s r have "scan fs sd cur needed names ch = Inr (ch', explore)" by simp
  from scan_explore [OF this] f have "dir_needed needed f" by simp
  with m have deep: "\<forall>c \<in> set cs. 1 < length (parts c)"
    by (simp add: dir_needed_def)
  have "sum_list (map (\<lambda>c. length (parts c)) cs) \<le> sum_list (map (\<lambda>c. length (parts c)) children)"
    unfolding cs group_of_def by (rule sum_list_filter_le)
  with advance_decreases [OF ne deep] show ?thesis by (simp add: comp_def)
qed

function walk_recursive ::
  "filesystem \<Rightarrow> bool \<Rightarrow> string \<Rightarrow> child list \<Rightarrow> changes \<Rightarrow> error + changes" where
  "walk_recursive fs should_delete current_directory children ch =
     (case current_listing fs current_directory of
        Inl e \<Rightarrow> Inl e
      | Inr current_directory_files \<Rightarrow>
          (case build_needed children of
             Inl e \<Rightarrow> Inl e
           | Inr needed \<Rightarrow>
               (case scan fs should_delete current_directory needed
                       (all_files_of current_directory_files needed) ch of
                  Inl e \<Rightarrow> Inl e
                | Inr (ch', explore) \<Rightarrow>
                    for_each
                      (\<lambda>file acc.
                         case map_of needed file of
                           None \<Rightarrow> Inl (KeyError file)
                         | Some cs \<Rightarrow>
                             walk_recursive fs should_delete
                               (os_path_join current_directory file) (map advance cs) acc)
                      explore ch')))"
  by pat_completeness auto
termination
  apply (relation "measure (\<lambda>(fs, sd, cur, children, ch). sum_list (map (\<lambda>c. length (parts c)) children))")
   apply simp
  apply simp
  apply (erule (4) explore_group_decreases)
  done

declare walk_recursive.simps [simp del]

text \<open>
  \<^verbatim>\<open>compute_changes\<close>: one child per key of the target mapping, in the order of the dict.
\<close>

definition compute_changes ::
  "filesystem \<Rightarrow> state \<Rightarrow> bool \<Rightarrow> string \<Rightarrow> error + changes" where
  "compute_changes fs state should_delete output =
     walk_recursive fs should_delete output
       (map (\<lambda>(path', t). \<lparr>content = content t, parts = str_split CHR ''/'' path'\<rparr>) state)
       no_changes"

subsection \<open>Applying a changeset: \<^verbatim>\<open>update_files\<close>\<close>

text \<open>
  The mutating calls on the store. The kernel finds the directory that holds a path by
  resolving all but its last component; for the paths \<^verbatim>\<open>os.path.join\<close> builds from a
  directory and a file name that is \<^verbatim>\<open>posixpath.dirname\<close>, and the name is
  \<^verbatim>\<open>posixpath.basename\<close>. The store holds a directory under a name, so a directory
  written with a trailing slash is reached by these calls under its name without the
  slash, and it is the listing stored there that they rewrite. A name that has no node in
  the store cannot be removed.
\<close>

definition os_path_dirname :: "string \<Rightarrow> string" where
  "os_path_dirname p =
     (let head = rev (dropWhile (\<lambda>c. c \<noteq> CHR ''/'') (rev p))
      in if head \<noteq> [] \<and> \<not> (\<forall>c \<in> set head. c = CHR ''/'')
         then rev (dropWhile (\<lambda>c. c = CHR ''/'') (rev head))
         else head)"

definition os_path_basename :: "string \<Rightarrow> string" where
  "os_path_basename p = rev (takeWhile (\<lambda>c. c \<noteq> CHR ''/'') (rev p))"

text \<open>Take a path out of the store and its name out of the listing of its directory.\<close>

definition unlink :: "filesystem \<Rightarrow> string \<Rightarrow> filesystem" where
  "unlink fs p =
     (let parent = os_path_dirname p in
      (case fs parent of
         Some (Dir names) \<Rightarrow> fs(parent \<mapsto> Dir (removeAll (os_path_basename p) names))
       | _ \<Rightarrow> fs)(p := None))"

text \<open>Put a node at a path that does not exist yet, inside an existing directory.\<close>

definition link :: "filesystem \<Rightarrow> string \<Rightarrow> node \<Rightarrow> error + filesystem" where
  "link fs p n =
     (let parent = os_path_dirname p in
      case fs parent of
        Some (Dir names) \<Rightarrow> Inr (fs(parent \<mapsto> Dir (names @ [os_path_basename p]), p \<mapsto> n))
      | Some _ \<Rightarrow> Inl (NotADirectoryError p)
      | None \<Rightarrow> Inl (FileNotFoundError p))"

definition os_remove :: "filesystem \<Rightarrow> string \<Rightarrow> error + filesystem" where
  "os_remove fs p =
     (case fs p of
        None \<Rightarrow> Inl (FileNotFoundError p)
      | Some (Dir _) \<Rightarrow> Inl (IsADirectoryError p)
      | Some _ \<Rightarrow> Inr (unlink fs p))"

text \<open>\<^verbatim>\<open>shutil.rmtree\<close> removes the directory and every path below it.\<close>

definition shutil_rmtree :: "filesystem \<Rightarrow> string \<Rightarrow> error + filesystem" where
  "shutil_rmtree fs p =
     (case fs p of
        None \<Rightarrow> Inl (FileNotFoundError p)
      | Some (Dir _) \<Rightarrow> Inr (\<lambda>q. if prefix (p @ ''/'') q then None else unlink fs p q)
      | Some _ \<Rightarrow> Inl (NotADirectoryError p))"

definition os_mkdir :: "filesystem \<Rightarrow> string \<Rightarrow> error + filesystem" where
  "os_mkdir fs p = (if fs p \<noteq> None then Inl (FileExistsError p) else link fs p (Dir []))"

text \<open>
  \<^verbatim>\<open>with open(path, "w") as f: f.write(content)\<close>: truncates a regular file, creates a
  missing one, fails on a directory.
\<close>

definition write_text :: "filesystem \<Rightarrow> string \<Rightarrow> string \<Rightarrow> error + filesystem" where
  "write_text fs p bytes =
     (case fs p of
        None \<Rightarrow> link fs p (File bytes)
      | Some (File _) \<Rightarrow> Inr (fs(p \<mapsto> File bytes))
      | Some (Dir _) \<Rightarrow> Inl (IsADirectoryError p)
      | Some Other \<Rightarrow> Inr fs)"

text \<open>
  A step of \<^verbatim>\<open>update_files\<close> that raises leaves the filesystem as it is at that moment:
  the error carries it.
\<close>

definition attempt ::
  "(filesystem \<Rightarrow> 'a \<Rightarrow> error + filesystem) \<Rightarrow> 'a \<Rightarrow> filesystem \<Rightarrow>
   error \<times> filesystem + filesystem" where
  "attempt operation x fs = (case operation fs x of Inl e \<Rightarrow> Inl (e, fs) | Inr fs' \<Rightarrow> Inr fs')"

definition delete_path :: "filesystem \<Rightarrow> string \<Rightarrow> error + filesystem" where
  "delete_path fs file = (if os_path_isdir fs file then shutil_rmtree fs file else os_remove fs file)"

definition write_entry :: "filesystem \<Rightarrow> entry \<Rightarrow> error + filesystem" where
  "write_entry fs file_data = write_text fs (path file_data) (content file_data)"

definition update_files :: "changes \<Rightarrow> filesystem \<Rightarrow> error \<times> filesystem + filesystem" where
  "update_files ch fs =
     (case for_each (attempt delete_path) (to_delete ch) fs of
        Inl e \<Rightarrow> Inl e
      | Inr fs1 \<Rightarrow>
          (case for_each (attempt os_mkdir) (directories_to_create ch) fs1 of
             Inl e \<Rightarrow> Inl e
           | Inr fs2 \<Rightarrow>
               (case for_each (attempt write_entry) (files_to_update ch) fs2 of
                  Inl e \<Rightarrow> Inl e
                | Inr fs3 \<Rightarrow> for_each (attempt write_entry) (files_to_create ch) fs3)))"

subsection \<open>The run: \<^verbatim>\<open>main\<close>\<close>

text \<open>
  \<^verbatim>\<open>main\<close> from the check of the repository to \<^verbatim>\<open>update_files\<close>. The export is the
  argument \<open>solutions\<close>, the answer to the prompt is \<open>answer\<close>; the result is the
  filesystem after the run, or the error with the filesystem it left. The commit that
  follows (\<^verbatim>\<open>update_git\<close>) is outside the model.
\<close>

definition main ::
  "string \<Rightarrow> FileStructure \<Rightarrow> string option \<Rightarrow> bool \<Rightarrow> bool \<Rightarrow> bool \<Rightarrow> bool \<Rightarrow> bool \<Rightarrow>
   solution list \<Rightarrow> bool \<Rightarrow> filesystem \<Rightarrow> error \<times> filesystem + filesystem" where
  "main output_path structure' only_scoring no_scoring_name no_git no_delete no_interactive
       dry_run solutions answer fs =
     (if \<not> no_git \<and> \<not> os_path_exists fs (os_path_join output_path ''.git'') then
        Inl (Exception (''The root directory '' @ output_path @
                        '' doesn't appear to be a git repository''), fs)
      else
        (case compute_final_state structure' only_scoring (\<not> no_scoring_name) solutions of
           Inl e \<Rightarrow> Inl (e, fs)
         | Inr state \<Rightarrow>
             (case compute_changes fs state (\<not> no_delete) output_path of
                Inl e \<Rightarrow> Inl (e, fs)
              | Inr ch \<Rightarrow>
                  if length (to_delete ch) = 0 \<and> length (files_to_update ch) = 0 \<and>
                     length (files_to_create ch) = 0 \<and> length (directories_to_create ch) = 0
                  then Inr fs
                  else if \<not> no_interactive \<and> \<not> answer then Inl (SystemExit 1, fs)
                  else if \<not> dry_run then update_files ch fs
                  else Inr fs)))"

section \<open>Notions for the statements\<close>

text \<open>
  For the aggregation: the path of a record without its suffix and extension, by layout,
  and the records of the same (hole, lang) group. A record is kept by the category filter
  when \<^verbatim>\<open>continue\<close> is not taken for it. \<open>spec_category\<close> is the category argument
  as the specification words it: none if collapsing is enabled, every record of the group
  has the code of the record, and no filter is set; the category of the record otherwise.
  \<open>spec_path\<close> is the answer of the resolver for that argument, \<open>resolving\<close> the kept
  records of the export that resolve to a given path, in iteration order, and
  \<open>entry_of\<close> the value the loop stores for a record. \<open>first_latest\<close> picks from a list
  of records the first one among those with the greatest timestamp.
\<close>

definition stem :: "FileStructure \<Rightarrow> string \<Rightarrow> string \<Rightarrow> string" where
  "stem file_structure hole_code language_code =
     (case file_structure of
        LANGUAGE_HOLE_EXTENSION \<Rightarrow> language_code @ ''/'' @ hole_code
      | HOLE_LANGUAGE_EXTENSION \<Rightarrow> hole_code @ ''/'' @ language_code
      | HOLE_SOLUTION_EXTENSION \<Rightarrow> hole_code @ ''/solution''
      | HOLE_EXTENSION \<Rightarrow> hole_code)"

definition same_group :: "solution \<Rightarrow> solution \<Rightarrow> bool" where
  "same_group s s' = (hole s' = hole s \<and> lang s' = lang s)"

definition kept_by :: "string option \<Rightarrow> solution \<Rightarrow> bool" where
  "kept_by only_category s = (only_category = None \<or> only_category = Some (scoring s))"

definition spec_category :: "string option \<Rightarrow> bool \<Rightarrow> solution list \<Rightarrow> solution \<Rightarrow> string option" where
  "spec_category only_category collapse solutions s =
     (if collapse \<and> (\<forall>s' \<in> set solutions. same_group s s' \<longrightarrow> code s' = code s)
         \<and> only_category = None
      then None else Some (scoring s))"

definition spec_path ::
  "FileStructure \<Rightarrow> string option \<Rightarrow> bool \<Rightarrow> solution list \<Rightarrow> solution \<Rightarrow> error + string" where
  "spec_path file_structure only_category collapse solutions s =
     get_solution_path file_structure (hole s) (lang s)
       (spec_category only_category collapse solutions s)"

definition resolving ::
  "FileStructure \<Rightarrow> string option \<Rightarrow> bool \<Rightarrow> solution list \<Rightarrow> string \<Rightarrow> solution list" where
  "resolving file_structure only_category collapse solutions p =
     filter (\<lambda>s. kept_by only_category s \<and>
                 spec_path file_structure only_category collapse solutions s = Inr p) solutions"

definition entry_of :: "solution \<Rightarrow> target" where
  "entry_of s = \<lparr>content = code s, date = submitted s\<rparr>"

fun first_latest :: "solution list \<Rightarrow> solution option" where
  "first_latest [] = None"
| "first_latest (s # ys) =
     (case first_latest ys of
        None \<Rightarrow> Some s
      | Some w \<Rightarrow> if submitted s < submitted w then Some w else Some s)"

text \<open>
  For the reconciliation. The four lists of a changeset by kind, as lists of paths, and
  the concatenation of two changesets. For one name of a directory level, \<open>level_cond\<close> is
  the condition under which a successful scan of the level puts the path of that name on
  the list of a kind, read off the branches of \<open>visit\<close>. \<open>sub_walk\<close> is the walk of one
  explored name, started from empty lists. \<open>prefix_free\<close>: the children have pairwise
  distinct part lists none of which is a proper prefix of another. A valid name is a file
  name: not empty, no slash. \<open>norm_dir\<close> is a directory path as \<^verbatim>\<open>os.path.join\<close> extends
  it, and \<open>descend cur segs\<close> the path of the chain of names \<open>segs\<close> below \<open>cur\<close>, built
  as the walk builds it. \<open>holder d\<close> is the name under which \<^verbatim>\<open>os.mkdir\<close> and
  \<^verbatim>\<open>os.remove\<close> look up the directory \<open>d\<close> when they are given the path of one of its
  entries, that is \<^verbatim>\<open>os.path.dirname\<close> of the joined path: \<open>d\<close> itself unless \<open>d\<close> is
  written with a trailing slash. \<open>parents_ok G A ds\<close>: every path of \<open>ds\<close> is a file name
  joined to a directory that satisfies \<open>G\<close>, is in \<open>A\<close>, or stands earlier in \<open>ds\<close>.
  \<open>guarded fs D cur c\<close>: \<open>c\<close> is a directory on disk below \<open>cur\<close>, found under its own
  name, that is not in \<open>D\<close> and lies inside no path of \<open>D\<close>.
  \<open>leaf_due fs k p text\<close> says what the on-disk state at the path \<open>p\<close> of a needed leaf
  with content \<open>text\<close> asks for: a creation when there is no regular file, also a deletion
  when something else is in the way, an update when the regular file reads differently.
\<close>

datatype kind = Deleted | Made | Created | Updated

fun paths_of :: "kind \<Rightarrow> changes \<Rightarrow> string list" where
  "paths_of Deleted ch = to_delete ch"
| "paths_of Made ch = directories_to_create ch"
| "paths_of Created ch = map path (files_to_create ch)"
| "paths_of Updated ch = map path (files_to_update ch)"

definition append_changes :: "changes \<Rightarrow> changes \<Rightarrow> changes" where
  "append_changes a b =
     \<lparr>to_delete = to_delete a @ to_delete b,
      files_to_update = files_to_update a @ files_to_update b,
      files_to_create = files_to_create a @ files_to_create b,
      directories_to_create = directories_to_create a @ directories_to_create b\<rparr>"

definition level_cond ::
  "filesystem \<Rightarrow> bool \<Rightarrow> string \<Rightarrow> needed \<Rightarrow> kind \<Rightarrow> string \<Rightarrow> bool" where
  "level_cond fs sd cur needed k f =
     (let p = os_path_join cur f in
      case map_of needed f of
        None \<Rightarrow> k = Deleted \<and> sd \<and> f \<notin> set DEFAULT_IGNORE_LIST
      | Some files_data \<Rightarrow>
          if dir_needed needed f then
            (k = Made \<and> \<not> os_path_isdir fs p) \<or>
            (k = Deleted \<and> sd \<and> os_path_exists fs p \<and> \<not> os_path_isdir fs p)
          else
            (k = Created \<and> \<not> os_path_isfile fs p) \<or>
            (k = Deleted \<and> sd \<and> os_path_exists fs p \<and> \<not> os_path_isfile fs p) \<or>
            (k = Updated \<and> os_path_isfile fs p \<and>
               read_text fs p \<noteq> Inr (content (hd files_data))))"

definition sub_walk :: "filesystem \<Rightarrow> bool \<Rightarrow> string \<Rightarrow> child list \<Rightarrow> string \<Rightarrow> error + changes" where
  "sub_walk fs sd cur children f =
     walk_recursive fs sd (os_path_join cur f) (map advance (group_of f children)) no_changes"

definition prefix_free :: "child list \<Rightarrow> bool" where
  "prefix_free cs =
     (distinct (map parts cs) \<and>
      (\<forall>c \<in> set cs. \<forall>c' \<in> set cs. \<not> strict_prefix (parts c) (parts c')))"

fun str_join :: "char \<Rightarrow> string list \<Rightarrow> string" where
  "str_join sep [] = []"
| "str_join sep [x] = x"
| "str_join sep (x # y # ys) = x @ sep # str_join sep (y # ys)"

definition valid_name :: "string \<Rightarrow> bool" where
  "valid_name n = (n \<noteq> [] \<and> CHR ''/'' \<notin> set n)"

definition valid_children :: "child list \<Rightarrow> bool" where
  "valid_children cs = (\<forall>c \<in> set cs. \<forall>n \<in> set (parts c). valid_name n)"

definition valid_fs :: "filesystem \<Rightarrow> bool" where
  "valid_fs fs = (\<forall>p names. fs p = Some (Dir names) \<longrightarrow> (\<forall>n \<in> set names. valid_name n))"

definition norm_dir :: "string \<Rightarrow> string" where
  "norm_dir d = (if d = [] \<or> last d = CHR ''/'' then d else d @ ''/'')"

definition descend :: "string \<Rightarrow> string list \<Rightarrow> string" where
  "descend cur segs = foldl os_path_join cur segs"


definition parents_ok :: "(string \<Rightarrow> bool) \<Rightarrow> string set \<Rightarrow> string list \<Rightarrow> bool" where
  "parents_ok G A ds =
     (\<forall>i < length ds. \<exists>c n. valid_name n \<and> ds ! i = os_path_join c n \<and>
        (G c \<or> c \<in> A \<or> c \<in> set (take i ds)))"


definition leaf_due :: "filesystem \<Rightarrow> kind \<Rightarrow> string \<Rightarrow> string \<Rightarrow> bool" where
  "leaf_due fs k p text =
     ((k = Created \<and> \<not> os_path_isfile fs p) \<or>
      (k = Deleted \<and> os_path_exists fs p \<and> \<not> os_path_isfile fs p) \<or>
      (k = Updated \<and> os_path_isfile fs p \<and> read_text fs p \<noteq> Inr text))"

text \<open>
  Example inputs: a repository whose root holds a file where the target needs a
  directory, one whose root holds a directory where the target needs a file, an empty
  repository, one with entries of the ignore list, and one with a file to delete. Three
  exports: records of two languages with the same extension that meet at one path, two
  categories with the same code, and two categories with different codes.
\<close>

definition fs_file_in_the_way :: filesystem where
  "fs_file_in_the_way =
     [''out'' \<mapsto> Dir [''fizz-buzz''], ''out/fizz-buzz'' \<mapsto> File ''notes'']"

definition fs_dir_in_the_way :: filesystem where
  "fs_dir_in_the_way =
     [''out'' \<mapsto> Dir [''fizz-buzz.py''], ''out/fizz-buzz.py'' \<mapsto> Dir []]"

definition fs_empty_root :: filesystem where
  "fs_empty_root = [''out'' \<mapsto> Dir []]"

definition nested_target :: state where
  "nested_target = [(''fizz-buzz/python.py'', \<lparr>content = ''print(1)'', date = ''2024-01-01''\<rparr>)]"

definition flat_target :: state where
  "flat_target = [(''fizz-buzz.py'', \<lparr>content = ''print(1)'', date = ''2024-01-01''\<rparr>)]"

definition crlf_target :: state where
  "crlf_target =
     [(''fizz-buzz.py'',
       \<lparr>content = ''print(1)'' @ [CHR 0x0D, CHR 0x0A], date = ''2024-01-01''\<rparr>)]"


definition fs_with_readme :: filesystem where
  "fs_with_readme =
     [''out'' \<mapsto> Dir [''.git'', ''LICENSE'', ''README.md'', ''old.py''],
      ''out/.git'' \<mapsto> Dir [],
      ''out/LICENSE'' \<mapsto> File ''GPL'',
      ''out/README.md'' \<mapsto> File ''my solutions'',
      ''out/old.py'' \<mapsto> File ''print(0)'']"

definition license_target :: state where
  "license_target =
     [(''fizz-buzz.py'', \<lparr>content = ''print(1)'', date = ''2024-01-01''\<rparr>),
      (''LICENSE'', \<lparr>content = ''MIT'', date = ''2024-01-02''\<rparr>)]"


definition tied_export :: "solution list" where
  "tied_export =
     [\<lparr>hole = ''fizz-buzz'', lang = ''perl'', scoring = ''bytes'',
       submitted = ''2024-01-01'', code = ''A''\<rparr>,
      \<lparr>hole = ''fizz-buzz'', lang = ''prolog'', scoring = ''bytes'',
       submitted = ''2024-01-02'', code = ''B''\<rparr>,
      \<lparr>hole = ''fizz-buzz'', lang = ''perl'', scoring = ''bytes'',
       submitted = ''2024-01-02'', code = ''C''\<rparr>]"

definition same_code_export :: "solution list" where
  "same_code_export =
     [\<lparr>hole = ''fizz-buzz'', lang = ''python'', scoring = ''bytes'',
       submitted = ''2024-01-01'', code = ''A''\<rparr>,
      \<lparr>hole = ''fizz-buzz'', lang = ''python'', scoring = ''chars'',
       submitted = ''2024-01-02'', code = ''A''\<rparr>]"

definition two_codes_export :: "solution list" where
  "two_codes_export =
     [\<lparr>hole = ''fizz-buzz'', lang = ''python'', scoring = ''bytes'',
       submitted = ''2024-01-01'', code = ''A''\<rparr>,
      \<lparr>hole = ''fizz-buzz'', lang = ''python'', scoring = ''chars'',
       submitted = ''2024-01-02'', code = ''B''\<rparr>]"

section \<open>Properties of the aggregation\<close>

lemma fold_add_code:
  "fold add_code xs m k =
     (if \<exists>s \<in> set xs. (hole s, lang s) = k
      then Some ((case m k of None \<Rightarrow> {} | Some S \<Rightarrow> S) \<union> code ` {s \<in> set xs. (hole s, lang s) = k})
      else m k)"
proof (induction xs arbitrary: m)
  case Nil
  then show ?case by simp
next
  case (Cons x xs)
  have step: "add_code x m k =
      (if (hole x, lang x) = k then Some (insert (code x) (case m k of None \<Rightarrow> {} | Some S \<Rightarrow> S))
       else m k)"
    by (auto simp: add_code_def Let_def split: option.splits)
  show ?case
    unfolding fold_simps Cons.IH step
    by (auto split: option.splits)
qed

lemma collect_codes_lookup:
  "s \<in> set solutions \<Longrightarrow>
   collect_codes solutions (hole s, lang s) = Some (code ` {s' \<in> set solutions. same_group s s'})"
  unfolding collect_codes_def fold_add_code same_group_def by auto

lemma card_image_one:
  assumes "s \<in> A" "finite A"
  shows "card (f ` A) = 1 \<longleftrightarrow> (\<forall>s' \<in> A. f s' = f s)"
proof
  assume "card (f ` A) = 1"
  then obtain v where v: "f ` A = {v}" by (auto simp: card_1_singleton_iff)
  have "f x = v" if "x \<in> A" for x
  proof -
    from that have "f x \<in> f ` A" by (rule imageI)
    then have "f x \<in> {v}" unfolding v .
    then show ?thesis by simp
  qed
  then show "\<forall>s' \<in> A. f s' = f s" using assms(1) by simp
next
  assume same: "\<forall>s' \<in> A. f s' = f s"
  have "f ` A \<subseteq> {f s}"
  proof
    fix y assume "y \<in> f ` A"
    then obtain x where "x \<in> A" and "y = f x" by (rule imageE)
    with same show "y \<in> {f s}" by simp
  qed
  moreover have "{f s} \<subseteq> f ` A" using assms(1) by simp
  ultimately have "f ` A = {f s}" by (rule equalityI)
  then show "card (f ` A) = 1" by simp
qed

lemma unique_iff:
  assumes "s \<in> set solutions"
  shows "card (code ` {s' \<in> set solutions. same_group s s'}) = 1 \<longleftrightarrow>
         (\<forall>s' \<in> set solutions. same_group s s' \<longrightarrow> code s' = code s)"
proof -
  have "s \<in> {s' \<in> set solutions. same_group s s'}" using assms by (simp add: same_group_def)
  from card_image_one [OF this, of code] show ?thesis by auto
qed

lemma get_solution_path_known:
  assumes "map_of LANGUAGE_NAMES_EXTENSIONS l = Some (name, ext)"
  shows "get_solution_path st h l None = Inr (stem st h l @ ''.'' @ ext)"
    and "c \<noteq> [] \<Longrightarrow> get_solution_path st h l (Some c) = Inr (stem st h l @ ''-'' @ c @ ''.'' @ ext)"
  using assms by (auto simp: get_solution_path_def stem_def split: FileStructure.splits)

lemma get_solution_path_unknown:
  assumes "l \<notin> fst ` set LANGUAGE_NAMES_EXTENSIONS"
  shows "get_solution_path st h l c = Inl (KeyError l)"
proof -
  from assms have "map_of LANGUAGE_NAMES_EXTENSIONS l = None"
    by (simp add: map_of_eq_None_iff)
  then show ?thesis by (simp add: get_solution_path_def)
qed

lemma first_latest_snoc:
  "first_latest (ys @ [s]) =
     (case first_latest ys of
        None \<Rightarrow> Some s
      | Some w \<Rightarrow> if submitted w < submitted s then Some s else Some w)"
  by (induction ys) (auto split: option.splits)

lemma first_latest_Nil: "first_latest ys = None \<longleftrightarrow> ys = []"
  by (cases ys) (auto split: option.splits)

lemma first_latest_split:
  "first_latest ys = Some w \<Longrightarrow>
   \<exists>pre post. ys = pre @ w # post \<and> (\<forall>s \<in> set pre. submitted s < submitted w)
      \<and> (\<forall>s \<in> set post. submitted s \<le> submitted w)"
proof (induction ys arbitrary: w)
  case Nil
  then show ?case by simp
next
  case (Cons y ys)
  show ?case
  proof (cases "first_latest ys")
    case None
    then have "ys = []" by (simp add: first_latest_Nil)
    with Cons.prems have "y # ys = [] @ w # []" by simp
    then show ?thesis by (metis empty_iff list.set(1))
  next
    case (Some v)
    from Cons.IH [OF Some] obtain pre post where
      split: "ys = pre @ v # post" "\<forall>s \<in> set pre. submitted s < submitted v"
        "\<forall>s \<in> set post. submitted s \<le> submitted v"
      by blast
    show ?thesis
    proof (cases "submitted y < submitted v")
      case True
      with Some Cons.prems have "w = v" by simp
      with split True have "y # ys = (y # pre) @ w # post"
        "\<forall>s \<in> set (y # pre). submitted s < submitted w"
        "\<forall>s \<in> set post. submitted s \<le> submitted w"
        by simp_all
      then show ?thesis by blast
    next
      case False
      with Some Cons.prems have w: "w = y" by simp
      from False have vy: "submitted v \<le> submitted y" by (simp add: not_less)
      have "submitted x \<le> submitted y" if "x \<in> set ys" for x
      proof -
        from that split(1) consider "x \<in> set pre" | "x = v" | "x \<in> set post" by auto
        then show ?thesis
        proof cases
          case 1
          with split(2) have "submitted x < submitted v" by simp
          with vy show ?thesis by simp
        next
          case 2
          with vy show ?thesis by simp
        next
          case 3
          with split(3) have "submitted x \<le> submitted v" by simp
          with vy show ?thesis by simp
        qed
      qed
      then have "\<forall>s \<in> set ys. submitted s \<le> submitted y" by simp
      with w have "y # ys = [] @ w # ys" "\<forall>s \<in> set ([] :: solution list). submitted s < submitted w"
        "\<forall>s \<in> set ys. submitted s \<le> submitted w"
        by simp_all
      then show ?thesis by blast
    qed
  qed
qed

lemma for_each_append:
  "for_each body (xs @ ys) s =
     (case for_each body xs s of Inl e \<Rightarrow> Inl e | Inr s' \<Rightarrow> for_each body ys s')"
  by (induction xs arbitrary: s) (auto split: sum.splits)

lemma empty_label_path:
  "get_solution_path st h l (Some []) = get_solution_path st h l None"
  by (simp add: get_solution_path_def Let_def split: option.splits)

lemma process_solution_spec:
  assumes member: "s \<in> set solutions"
  shows "process_solution file_structure only_category collapse (collect_codes solutions) s state =
     (if \<not> kept_by only_category s then Inr state
      else case spec_path file_structure only_category collapse solutions s of
             Inl e \<Rightarrow> Inl e
           | Inr p \<Rightarrow>
               (case map_of state p of
                  None \<Rightarrow> Inr (AList.update p (entry_of s) state)
                | Some old \<Rightarrow>
                    if date old < submitted s then Inr (AList.update p (entry_of s) state)
                    else Inr state))"
proof -
  let ?uniform = "\<forall>s' \<in> set solutions. same_group s s' \<longrightarrow> code s' = code s"
  have codes: "collect_codes solutions (hole s, lang s) =
      Some (code ` {s' \<in> set solutions. same_group s s'})"
    by (rule collect_codes_lookup [OF member])
  have unique: "card (code ` {s' \<in> set solutions. same_group s s'}) = 1 \<longleftrightarrow> ?uniform"
    by (rule unique_iff [OF member])
  have category: "get_solution_path file_structure (hole s) (lang s)
        (if collapse \<and> card (code ` {s' \<in> set solutions. same_group s s'}) = 1
            \<and> py_not only_category
         then None else Some (scoring s))
      = spec_path file_structure only_category collapse solutions s"
    if "kept_by only_category s"
  proof (cases only_category)
    case None
    then show ?thesis
      unfolding unique by (simp add: spec_path_def spec_category_def py_not_def)
  next
    case (Some c)
    with that have c: "c = scoring s" by (simp add: kept_by_def)
    show ?thesis
    proof (cases "c = []")
      case True
      with Some c show ?thesis
        unfolding unique
        by (simp add: spec_path_def spec_category_def py_not_def empty_label_path)
    next
      case False
      with Some show ?thesis
        by (simp add: spec_path_def spec_category_def py_not_def)
    qed
  qed
  show ?thesis
  proof (cases "kept_by only_category s")
    case False
    then show ?thesis
      by (auto simp: process_solution_def Let_def codes kept_by_def)
  next
    case True
    then have pass: "\<not> (only_category \<noteq> None \<and> only_category \<noteq> Some (scoring s))"
      by (auto simp: kept_by_def)
    show ?thesis
      using True pass category [OF True]
      by (auto simp: process_solution_def Let_def codes entry_of_def not_le not_less
               split: sum.splits option.splits)
  qed
qed

lemma spec_path_known:
  assumes "lang s \<in> fst ` set LANGUAGE_NAMES_EXTENSIONS"
  shows "\<exists>p. spec_path file_structure only_category collapse solutions s = Inr p"
proof -
  from assms have "map_of LANGUAGE_NAMES_EXTENSIONS (lang s) \<noteq> None"
    by (simp add: map_of_eq_None_iff)
  then show ?thesis
    by (auto simp: spec_path_def get_solution_path_def Let_def split: option.splits)
qed

lemma aggregation_loop:
  assumes sub: "set xs \<subseteq> set solutions"
    and known: "\<forall>s \<in> set xs. kept_by only_category s \<longrightarrow> lang s \<in> fst ` set LANGUAGE_NAMES_EXTENSIONS"
  shows "\<exists>state. for_each (process_solution file_structure only_category collapse
                             (collect_codes solutions)) xs [] = Inr state
           \<and> (\<forall>p. map_of state p = map_option entry_of (first_latest
                  (filter (\<lambda>s. kept_by only_category s \<and>
                       spec_path file_structure only_category collapse solutions s = Inr p) xs)))"
  using assms
proof (induction xs rule: rev_induct)
  case Nil
  then show ?case by simp
next
  case (snoc s xs)
  let ?body = "process_solution file_structure only_category collapse (collect_codes solutions)"
  let ?rel = "\<lambda>p s. kept_by only_category s \<and>
      spec_path file_structure only_category collapse solutions s = Inr p"
  from snoc.prems have "set xs \<subseteq> set solutions"
    and "\<forall>s \<in> set xs. kept_by only_category s \<longrightarrow> lang s \<in> fst ` set LANGUAGE_NAMES_EXTENSIONS"
    by simp_all
  from snoc.IH [OF this] obtain state where
    before: "for_each ?body xs [] = Inr state" and
    inv: "\<And>p. map_of state p = map_option entry_of (first_latest (filter (?rel p) xs))"
    by blast
  from snoc.prems have member: "s \<in> set solutions" by simp
  have loop: "for_each ?body (xs @ [s]) [] =
      (case ?body s state of Inl e \<Rightarrow> Inl e | Inr s' \<Rightarrow> Inr s')"
    by (simp add: for_each_append before split: sum.splits)
  show ?case
  proof (cases "kept_by only_category s")
    case False
    then have "?body s state = Inr state" by (simp add: process_solution_spec [OF member])
    with loop False inv show ?thesis by simp
  next
    case True
    with snoc.prems have "lang s \<in> fst ` set LANGUAGE_NAMES_EXTENSIONS" by simp
    from spec_path_known [OF this] obtain q where
      q: "spec_path file_structure only_category collapse solutions s = Inr q" by blast
    let ?new = "AList.update q (entry_of s) state"
    show ?thesis
    proof (cases "first_latest (filter (?rel q) xs)")
      case None
      with inv [of q] have "map_of state q = None" by simp
      with True q have step: "?body s state = Inr ?new"
        by (simp add: process_solution_spec [OF member])
      have "map_of ?new p = map_option entry_of (first_latest (filter (?rel p) (xs @ [s])))" for p
        using inv [of p] None True q
        by (cases "p = q") (simp_all add: update_conv' first_latest_snoc)
      with loop step show ?thesis by simp
    next
      case (Some w)
      with inv [of q] have old: "map_of state q = Some (entry_of w)" by simp
      show ?thesis
      proof (cases "submitted w < submitted s")
        case later: True
        with True q old have step: "?body s state = Inr ?new"
          by (simp add: process_solution_spec [OF member] entry_of_def)
        have "map_of ?new p = map_option entry_of (first_latest (filter (?rel p) (xs @ [s])))" for p
          using inv [of p] Some True q later
          by (cases "p = q") (simp_all add: update_conv' first_latest_snoc)
        with loop step show ?thesis by simp
      next
        case False
        with True q old have step: "?body s state = Inr state"
          by (simp add: process_solution_spec [OF member] entry_of_def)
        have "map_of state p = map_option entry_of (first_latest (filter (?rel p) (xs @ [s])))" for p
          using inv [of p] Some True q False
          by (cases "p = q") (simp_all add: first_latest_snoc)
        with loop step show ?thesis by simp
      qed
    qed
  qed
qed

lemma aggregation_outcome:
  assumes known: "\<forall>s \<in> set solutions. kept_by only_category s \<longrightarrow>
                    lang s \<in> fst ` set LANGUAGE_NAMES_EXTENSIONS"
  shows "\<exists>final. compute_final_state file_structure only_category collapse solutions = Inr final
           \<and> (\<forall>p. map_of final p = map_option entry_of (first_latest
                  (resolving file_structure only_category collapse solutions p)))"
  using aggregation_loop [OF subset_refl known]
  by (simp add: compute_final_state_def resolving_def)

text \<open>
  \<^bold>\<open>C3.\<close> Let every record that the category filter keeps have a language of the table
  (otherwise the aggregation fails). Wherever the loop of \<^verbatim>\<open>compute_final_state\<close>
  stands: when it reaches a kept record \<open>s\<close> with the mapping \<open>before\<close> built from the
  records in front of \<open>s\<close>, the record resolves to a path \<open>p\<close>, and the aggregation goes
  on from \<open>before\<close> with the entry of \<open>s\<close> put at \<open>p\<close> if \<open>p\<close> is absent or holds an
  entry with a strictly smaller timestamp, and from \<open>before\<close> unchanged otherwise, so
  also on an equal timestamp. The mapping that the aggregation returns holds, at every
  path, the entry of the first record with the greatest timestamp among the kept records
  that resolve to the path (every such record in front of it has a strictly smaller
  timestamp, none behind it a greater one), and nothing at a path to which no kept record
  resolves.
\<close>

theorem later_timestamp_overwrites:
  assumes known: "\<forall>s \<in> set solutions. kept_by only_category s \<longrightarrow>
                    lang s \<in> fst ` set LANGUAGE_NAMES_EXTENSIONS"
  shows "(\<forall>pre s post. solutions = pre @ s # post \<and> kept_by only_category s \<longrightarrow>
            (\<exists>before p.
               for_each (process_solution file_structure only_category collapse
                           (collect_codes solutions)) pre [] = Inr before
               \<and> spec_path file_structure only_category collapse solutions s = Inr p
               \<and> compute_final_state file_structure only_category collapse solutions =
                   for_each (process_solution file_structure only_category collapse
                               (collect_codes solutions)) post
                     (case map_of before p of
                        None \<Rightarrow> AList.update p (entry_of s) before
                      | Some old \<Rightarrow>
                          if date old < submitted s then AList.update p (entry_of s) before
                          else before)))
       \<and> (\<exists>final.
            compute_final_state file_structure only_category collapse solutions = Inr final
            \<and> (\<forall>p. (resolving file_structure only_category collapse solutions p = []
                       \<and> map_of final p = None)
                  \<or> (\<exists>pre w post.
                        resolving file_structure only_category collapse solutions p
                          = pre @ w # post
                        \<and> (\<forall>s \<in> set pre. submitted s < submitted w)
                        \<and> (\<forall>s \<in> set post. submitted s \<le> submitted w)
                        \<and> map_of final p = Some (entry_of w))))"
proof (intro conjI allI impI)
  fix pre s post
  assume a: "solutions = pre @ s # post \<and> kept_by only_category s"
  let ?body = "process_solution file_structure only_category collapse (collect_codes solutions)"
  from a have sub: "set pre \<subseteq> set solutions" and member: "s \<in> set solutions" by auto
  from known sub have "\<forall>s \<in> set pre. kept_by only_category s \<longrightarrow>
      lang s \<in> fst ` set LANGUAGE_NAMES_EXTENSIONS" by blast
  from aggregation_loop [OF sub this, of file_structure collapse]
  obtain before where before: "for_each ?body pre [] = Inr before" by blast
  from known member a have "lang s \<in> fst ` set LANGUAGE_NAMES_EXTENSIONS" by blast
  from spec_path_known [OF this] obtain p where
    p: "spec_path file_structure only_category collapse solutions s = Inr p" by blast
  have step: "?body s before =
      Inr (case map_of before p of
             None \<Rightarrow> AList.update p (entry_of s) before
           | Some old \<Rightarrow>
               if date old < submitted s then AList.update p (entry_of s) before else before)"
  proof -
    from a have "kept_by only_category s" by simp
    with p show ?thesis
      by (simp add: process_solution_spec [OF member] split: option.splits)
  qed
  have "compute_final_state file_structure only_category collapse solutions =
      for_each ?body (pre @ s # post) []"
    using a by (simp add: compute_final_state_def)
  also have "\<dots> = for_each ?body post
      (case map_of before p of
         None \<Rightarrow> AList.update p (entry_of s) before
       | Some old \<Rightarrow>
           if date old < submitted s then AList.update p (entry_of s) before else before)"
    by (simp add: for_each_append before step)
  finally show "\<exists>before p.
               for_each ?body pre [] = Inr before
               \<and> spec_path file_structure only_category collapse solutions s = Inr p
               \<and> compute_final_state file_structure only_category collapse solutions =
                   for_each ?body post
                     (case map_of before p of
                        None \<Rightarrow> AList.update p (entry_of s) before
                      | Some old \<Rightarrow>
                          if date old < submitted s then AList.update p (entry_of s) before
                          else before)"
    using before p by blast
next
  from aggregation_outcome [OF known, of file_structure collapse] obtain final where
    final: "compute_final_state file_structure only_category collapse solutions = Inr final"
    and entries: "\<And>p. map_of final p = map_option entry_of (first_latest
        (resolving file_structure only_category collapse solutions p))"
    by blast
  have "(resolving file_structure only_category collapse solutions p = []
            \<and> map_of final p = None)
        \<or> (\<exists>pre w post.
              resolving file_structure only_category collapse solutions p = pre @ w # post
              \<and> (\<forall>s \<in> set pre. submitted s < submitted w)
              \<and> (\<forall>s \<in> set post. submitted s \<le> submitted w)
              \<and> map_of final p = Some (entry_of w))" for p
  proof (cases "first_latest (resolving file_structure only_category collapse solutions p)")
    case None
    with entries [of p] show ?thesis by (simp add: first_latest_Nil)
  next
    case (Some w)
    from first_latest_split [OF Some] entries [of p] Some show ?thesis by auto
  qed
  with final show "\<exists>final.
            compute_final_state file_structure only_category collapse solutions = Inr final
            \<and> (\<forall>p. (resolving file_structure only_category collapse solutions p = []
                       \<and> map_of final p = None)
                  \<or> (\<exists>pre w post.
                        resolving file_structure only_category collapse solutions p
                          = pre @ w # post
                        \<and> (\<forall>s \<in> set pre. submitted s < submitted w)
                        \<and> (\<forall>s \<in> set post. submitted s \<le> submitted w)
                        \<and> map_of final p = Some (entry_of w)))"
    by blast
qed

lemma tied_export_known:
  "\<forall>s \<in> set tied_export. kept_by None s \<longrightarrow> lang s \<in> fst ` set LANGUAGE_NAMES_EXTENSIONS"
  by (simp add: tied_export_def LANGUAGE_NAMES_EXTENSIONS_def)

lemma tied_export_run:
  "compute_final_state HOLE_EXTENSION None False tied_export
     = Inr [(''fizz-buzz-bytes.pl'', \<lparr>content = ''B'', date = ''2024-01-02''\<rparr>)]"
  by code_simp

lemma tied_export_resolving:
  "resolving HOLE_EXTENSION None False tied_export ''fizz-buzz-bytes.pl'' = tied_export"
  by code_simp

theorem later_timestamp_overwrites_witness:
  "compute_final_state HOLE_EXTENSION None False tied_export
     = Inr [(''fizz-buzz-bytes.pl'', \<lparr>content = ''B'', date = ''2024-01-02''\<rparr>)]
   \<and> resolving HOLE_EXTENSION None False tied_export ''fizz-buzz-bytes.pl''
       = [tied_export ! 0] @ tied_export ! 1 # [tied_export ! 2]
   \<and> submitted (tied_export ! 0) < submitted (tied_export ! 1)
   \<and> submitted (tied_export ! 2) = submitted (tied_export ! 1)
   \<and> (\<exists>final. compute_final_state HOLE_EXTENSION None False tied_export = Inr final
         \<and> map_of final ''fizz-buzz-bytes.pl'' = Some (entry_of (tied_export ! 1)))"
proof -
  from later_timestamp_overwrites [OF tied_export_known, of HOLE_EXTENSION False]
  obtain final where
    final: "compute_final_state HOLE_EXTENSION None False tied_export = Inr final"
    by blast
  with tied_export_run have "final = [(''fizz-buzz-bytes.pl'', \<lparr>content = ''B'', date = ''2024-01-02''\<rparr>)]"
    by simp
  then have "map_of final ''fizz-buzz-bytes.pl'' = Some (entry_of (tied_export ! 1))"
    by (simp add: tied_export_def entry_of_def)
  with final tied_export_run tied_export_resolving show ?thesis
    by (simp add: tied_export_def)
qed

text \<open>
  \<^bold>\<open>C4.\<close> Let every record that the category filter keeps have a language of the
  table. The keys of the mapping that \<^verbatim>\<open>compute_final_state\<close> returns are exactly the
  paths that the resolver gives the kept records for the category argument of the
  specification. For a kept record whose category label is not empty this path has no
  category suffix exactly when collapsing is enabled, every record of its (hole, lang)
  group has the same code, and no category filter is set; in every other case it carries
  \<open>-<category>\<close>. The path is a key of the mapping returned, with an entry that is not
  older than the record.
\<close>

theorem category_collapse:
  assumes known: "\<forall>s \<in> set solutions. kept_by only_category s \<longrightarrow>
                    lang s \<in> fst ` set LANGUAGE_NAMES_EXTENSIONS"
    and member: "s \<in> set solutions"
    and kept: "kept_by only_category s"
    and label: "scoring s \<noteq> []"
  shows "\<exists>final name ext p e.
           compute_final_state file_structure only_category collapse solutions = Inr final
         \<and> fst ` set final =
             {p. \<exists>s' \<in> set solutions. kept_by only_category s' \<and>
                   spec_path file_structure only_category collapse solutions s' = Inr p}
         \<and> map_of LANGUAGE_NAMES_EXTENSIONS (lang s) = Some (name, ext)
         \<and> p = (if collapse \<and> (\<forall>s' \<in> set solutions. same_group s s' \<longrightarrow> code s' = code s)
                     \<and> only_category = None
                 then stem file_structure (hole s) (lang s) @ ''.'' @ ext
                 else stem file_structure (hole s) (lang s) @ ''-'' @ scoring s @ ''.'' @ ext)
         \<and> spec_path file_structure only_category collapse solutions s = Inr p
         \<and> map_of final p = Some e \<and> submitted s \<le> date e"
proof -
  from aggregation_outcome [OF known, of file_structure collapse] obtain final where
    final: "compute_final_state file_structure only_category collapse solutions = Inr final"
    and entries: "\<And>p. map_of final p = map_option entry_of (first_latest
        (resolving file_structure only_category collapse solutions p))"
    by blast
  have keys: "fst ` set final =
      {p. \<exists>s' \<in> set solutions. kept_by only_category s' \<and>
            spec_path file_structure only_category collapse solutions s' = Inr p}"
  proof -
    have "p \<in> fst ` set final \<longleftrightarrow>
        resolving file_structure only_category collapse solutions p \<noteq> []" for p
    proof -
      have "p \<in> fst ` set final \<longleftrightarrow> map_of final p \<noteq> None"
        by (simp add: map_of_eq_None_iff)
      then show ?thesis by (simp add: entries first_latest_Nil)
    qed
    moreover have "resolving file_structure only_category collapse solutions p \<noteq> [] \<longleftrightarrow>
        (\<exists>s' \<in> set solutions. kept_by only_category s' \<and>
            spec_path file_structure only_category collapse solutions s' = Inr p)" for p
      by (auto simp: resolving_def filter_empty_conv)
    ultimately show ?thesis by blast
  qed
  from known member kept have "lang s \<in> fst ` set LANGUAGE_NAMES_EXTENSIONS" by blast
  then have "map_of LANGUAGE_NAMES_EXTENSIONS (lang s) \<noteq> None"
    by (simp add: map_of_eq_None_iff)
  then obtain name ext where table: "map_of LANGUAGE_NAMES_EXTENSIONS (lang s) = Some (name, ext)"
    by auto
  define p where "p = (if collapse \<and> (\<forall>s' \<in> set solutions. same_group s s' \<longrightarrow> code s' = code s)
                     \<and> only_category = None
                 then stem file_structure (hole s) (lang s) @ ''.'' @ ext
                 else stem file_structure (hole s) (lang s) @ ''-'' @ scoring s @ ''.'' @ ext)"
  have path: "spec_path file_structure only_category collapse solutions s = Inr p"
    unfolding p_def spec_path_def spec_category_def
    using get_solution_path_known [OF table] label by simp
  with member kept have "s \<in> set (resolving file_structure only_category collapse solutions p)"
    by (simp add: resolving_def)
  then have "first_latest (resolving file_structure only_category collapse solutions p) \<noteq> None"
    by (auto simp: first_latest_Nil)
  then obtain w where
    w: "first_latest (resolving file_structure only_category collapse solutions p) = Some w"
    by auto
  from first_latest_split [OF w] obtain pre post where
    split: "resolving file_structure only_category collapse solutions p = pre @ w # post"
      "\<forall>s \<in> set pre. submitted s < submitted w" "\<forall>s \<in> set post. submitted s \<le> submitted w"
    by blast
  from \<open>s \<in> set (resolving file_structure only_category collapse solutions p)\<close> split(1)
  consider "s \<in> set pre" | "s = w" | "s \<in> set post" by auto
  then have "submitted s \<le> submitted w"
  proof cases
    case 1
    with split(2) show ?thesis by (simp add: less_imp_le)
  next
    case 2
    then show ?thesis by simp
  next
    case 3
    with split(3) show ?thesis by simp
  qed
  moreover from entries [of p] w have "map_of final p = Some (entry_of w)" by simp
  ultimately have "map_of final p = Some (entry_of w) \<and> submitted s \<le> date (entry_of w)"
    by (simp add: entry_of_def)
  with final keys table path p_def show ?thesis by blast
qed

lemma same_code_export_known:
  "\<forall>s \<in> set same_code_export. kept_by None s \<longrightarrow> lang s \<in> fst ` set LANGUAGE_NAMES_EXTENSIONS"
  by (simp add: same_code_export_def LANGUAGE_NAMES_EXTENSIONS_def)

lemma two_codes_export_known:
  "\<forall>s \<in> set two_codes_export. kept_by None s \<longrightarrow> lang s \<in> fst ` set LANGUAGE_NAMES_EXTENSIONS"
  by (simp add: two_codes_export_def LANGUAGE_NAMES_EXTENSIONS_def)

theorem category_collapse_witness:
  "compute_final_state HOLE_LANGUAGE_EXTENSION None True same_code_export
     = Inr [(''fizz-buzz/python.py'', \<lparr>content = ''A'', date = ''2024-01-02''\<rparr>)]
   \<and> compute_final_state HOLE_LANGUAGE_EXTENSION None True two_codes_export
     = Inr [(''fizz-buzz/python-bytes.py'', \<lparr>content = ''A'', date = ''2024-01-01''\<rparr>),
            (''fizz-buzz/python-chars.py'', \<lparr>content = ''B'', date = ''2024-01-02''\<rparr>)]
   \<and> (\<exists>final. compute_final_state HOLE_LANGUAGE_EXTENSION None True same_code_export = Inr final
         \<and> map_of final ''fizz-buzz/python.py'' \<noteq> None)
   \<and> (\<exists>final. compute_final_state HOLE_LANGUAGE_EXTENSION None True two_codes_export = Inr final
         \<and> map_of final ''fizz-buzz/python-chars.py'' \<noteq> None)"
proof -
  have table: "map_of LANGUAGE_NAMES_EXTENSIONS ''python'' = Some (''Python'', ''py'')"
    by (simp add: LANGUAGE_NAMES_EXTENSIONS_def)
  have m1: "same_code_export ! 1 \<in> set same_code_export"
    and m2: "two_codes_export ! 1 \<in> set two_codes_export"
    by (simp_all add: same_code_export_def two_codes_export_def)
  have k1: "kept_by None (same_code_export ! 1)" and k2: "kept_by None (two_codes_export ! 1)"
    by (simp_all add: kept_by_def)
  have l1: "scoring (same_code_export ! 1) \<noteq> []" and l2: "scoring (two_codes_export ! 1) \<noteq> []"
    by (simp_all add: same_code_export_def two_codes_export_def)
  from category_collapse [OF same_code_export_known m1 k1 l1, of HOLE_LANGUAGE_EXTENSION True]
  obtain final name ext p e where
    one: "compute_final_state HOLE_LANGUAGE_EXTENSION None True same_code_export = Inr final"
      "map_of LANGUAGE_NAMES_EXTENSIONS (lang (same_code_export ! 1)) = Some (name, ext)"
      "p = (if True \<and> (\<forall>s' \<in> set same_code_export.
                 same_group (same_code_export ! 1) s' \<longrightarrow> code s' = code (same_code_export ! 1))
               \<and> (None :: string option) = None
            then stem HOLE_LANGUAGE_EXTENSION (hole (same_code_export ! 1))
                   (lang (same_code_export ! 1)) @ ''.'' @ ext
            else stem HOLE_LANGUAGE_EXTENSION (hole (same_code_export ! 1))
                   (lang (same_code_export ! 1)) @ ''-'' @ scoring (same_code_export ! 1)
                   @ ''.'' @ ext)"
      "map_of final p = Some e"
    by blast
  from one(2) table have "ext = ''py''" by (simp add: same_code_export_def)
  with one(3) have "p = ''fizz-buzz/python.py''"
    by (simp add: same_code_export_def same_group_def stem_def)
  with one(1,4) have first: "\<exists>final.
      compute_final_state HOLE_LANGUAGE_EXTENSION None True same_code_export = Inr final
         \<and> map_of final ''fizz-buzz/python.py'' \<noteq> None"
    by auto
  from category_collapse [OF two_codes_export_known m2 k2 l2, of HOLE_LANGUAGE_EXTENSION True]
  obtain final' name' ext' p' e' where
    two: "compute_final_state HOLE_LANGUAGE_EXTENSION None True two_codes_export = Inr final'"
      "map_of LANGUAGE_NAMES_EXTENSIONS (lang (two_codes_export ! 1)) = Some (name', ext')"
      "p' = (if True \<and> (\<forall>s' \<in> set two_codes_export.
                 same_group (two_codes_export ! 1) s' \<longrightarrow> code s' = code (two_codes_export ! 1))
               \<and> (None :: string option) = None
            then stem HOLE_LANGUAGE_EXTENSION (hole (two_codes_export ! 1))
                   (lang (two_codes_export ! 1)) @ ''.'' @ ext'
            else stem HOLE_LANGUAGE_EXTENSION (hole (two_codes_export ! 1))
                   (lang (two_codes_export ! 1)) @ ''-'' @ scoring (two_codes_export ! 1)
                   @ ''.'' @ ext')"
      "map_of final' p' = Some e'"
    by blast
  from two(2) table have "ext' = ''py''" by (simp add: two_codes_export_def)
  with two(3) have "p' = ''fizz-buzz/python-chars.py''"
    by (simp add: two_codes_export_def same_group_def stem_def)
  with two(1,4) have second: "\<exists>final.
      compute_final_state HOLE_LANGUAGE_EXTENSION None True two_codes_export = Inr final
         \<and> map_of final ''fizz-buzz/python-chars.py'' \<noteq> None"
    by auto
  have run1: "compute_final_state HOLE_LANGUAGE_EXTENSION None True same_code_export
     = Inr [(''fizz-buzz/python.py'', \<lparr>content = ''A'', date = ''2024-01-02''\<rparr>)]"
    by code_simp
  have run2: "compute_final_state HOLE_LANGUAGE_EXTENSION None True two_codes_export
     = Inr [(''fizz-buzz/python-bytes.py'', \<lparr>content = ''A'', date = ''2024-01-01''\<rparr>),
            (''fizz-buzz/python-chars.py'', \<lparr>content = ''B'', date = ''2024-01-02''\<rparr>)]"
    by code_simp
  from run1 run2 first second show ?thesis by blast
qed

lemma process_solution_unknown:
  assumes "cps (hole s, lang s) \<noteq> None"
    and "only_category = None \<or> only_category = Some (scoring s)"
    and "lang s \<notin> fst ` set LANGUAGE_NAMES_EXTENSIONS"
  shows "process_solution st only_category collapse cps s state = Inl (KeyError (lang s))"
  using assms
  by (auto simp: process_solution_def Let_def get_solution_path_unknown)

lemma process_solution_errors:
  assumes "cps (hole s, lang s) \<noteq> None"
    and "process_solution st only_category collapse cps s state = Inl e"
  shows "\<exists>l. l \<notin> fst ` set LANGUAGE_NAMES_EXTENSIONS \<and> e = KeyError l"
proof -
  from assms obtain c where
    "get_solution_path st (hole s) (lang s) c = Inl e"
    by (auto simp: process_solution_def Let_def split: if_splits sum.splits option.splits)
  then show ?thesis
    by (auto simp: get_solution_path_def Let_def map_of_eq_None_iff split: option.splits)
qed

lemma for_each_process_unknown:
  assumes "\<forall>s \<in> set xs. cps (hole s, lang s) \<noteq> None"
    and "s \<in> set xs"
    and "only_category = None \<or> only_category = Some (scoring s)"
    and "lang s \<notin> fst ` set LANGUAGE_NAMES_EXTENSIONS"
  shows "\<exists>l. l \<notin> fst ` set LANGUAGE_NAMES_EXTENSIONS \<and>
             for_each (process_solution st only_category collapse cps) xs state = Inl (KeyError l)"
  using assms
proof (induction xs arbitrary: state)
  case Nil
  then show ?case by simp
next
  case (Cons x xs)
  show ?case
  proof (cases "process_solution st only_category collapse cps x state")
    case (Inl e)
    with process_solution_errors [of cps x st only_category collapse state e] Cons.prems(1)
    show ?thesis by auto
  next
    case (Inr state')
    have "s \<noteq> x"
      using Inr process_solution_unknown [of cps x only_category st collapse state] Cons.prems
      by auto
    with Cons.prems have "s \<in> set xs" by simp
    from Cons.IH [OF _ this Cons.prems(3,4), of state'] Cons.prems(1) Inr
    show ?thesis by simp
  qed
qed

lemma collect_codes_present:
  "s \<in> set solutions \<Longrightarrow> collect_codes solutions (hole s, lang s) \<noteq> None"
  by (simp add: collect_codes_lookup)

text \<open>
  \<^bold>\<open>C8.\<close> For a language identifier that is not a key of the language table, path
  resolution fails with \<^verbatim>\<open>KeyError\<close> for every layout, hole and category. An export
  holding a record of such a language that the category filter lets through makes the
  aggregation fail with the \<^verbatim>\<open>KeyError\<close> of an unknown language, and the run ends with
  that error and the filesystem it started from.
\<close>

theorem unknown_language_fails:
  assumes unknown: "language_code \<notin> fst ` set LANGUAGE_NAMES_EXTENSIONS"
  shows "get_solution_path structure' hole_code language_code category = Inl (KeyError language_code)
    \<and> (s \<in> set solutions \<and> lang s = language_code \<and>
         (only_scoring = None \<or> only_scoring = Some (scoring s)) \<longrightarrow>
       (\<exists>l. l \<notin> fst ` set LANGUAGE_NAMES_EXTENSIONS \<and>
            compute_final_state structure' only_scoring collapse solutions = Inl (KeyError l) \<and>
            (no_git \<or> os_path_exists fs (os_path_join output_path ''.git'') \<longrightarrow>
             main output_path structure' only_scoring (\<not> collapse) no_git no_delete
               no_interactive dry_run solutions answer fs = Inl (KeyError l, fs))))"
proof (intro conjI impI)
  show "get_solution_path structure' hole_code language_code category = Inl (KeyError language_code)"
    by (rule get_solution_path_unknown [OF unknown])
next
  assume a: "s \<in> set solutions \<and> lang s = language_code \<and>
         (only_scoring = None \<or> only_scoring = Some (scoring s))"
  have "\<forall>s \<in> set solutions. collect_codes solutions (hole s, lang s) \<noteq> None"
    by (simp add: collect_codes_present)
  from for_each_process_unknown [OF this, of s only_scoring structure' collapse "[]"] a unknown
  obtain l where l: "l \<notin> fst ` set LANGUAGE_NAMES_EXTENSIONS"
    and fails: "compute_final_state structure' only_scoring collapse solutions = Inl (KeyError l)"
    by (auto simp: compute_final_state_def)
  have "main output_path structure' only_scoring (\<not> collapse) no_git no_delete
               no_interactive dry_run solutions answer fs = Inl (KeyError l, fs)"
    if "no_git \<or> os_path_exists fs (os_path_join output_path ''.git'')"
    using that fails by (auto simp: main_def)
  with l fails
  show "\<exists>l. l \<notin> fst ` set LANGUAGE_NAMES_EXTENSIONS \<and>
            compute_final_state structure' only_scoring collapse solutions = Inl (KeyError l) \<and>
            (no_git \<or> os_path_exists fs (os_path_join output_path ''.git'') \<longrightarrow>
             main output_path structure' only_scoring (\<not> collapse) no_git no_delete
               no_interactive dry_run solutions answer fs = Inl (KeyError l, fs))"
    by blast
qed

theorem unknown_language_fails_witness:
  "''klingon'' \<notin> fst ` set LANGUAGE_NAMES_EXTENSIONS
   \<and> get_solution_path HOLE_EXTENSION ''fizz-buzz'' ''klingon'' (Some ''bytes'')
       = Inl (KeyError ''klingon'')
   \<and> compute_final_state HOLE_EXTENSION None True
        [\<lparr>hole = ''fizz-buzz'', lang = ''klingon'', scoring = ''bytes'',
          submitted = ''2024-01-01'', code = ''A''\<rparr>]
       = Inl (KeyError ''klingon'')
   \<and> main ''out'' HOLE_EXTENSION None False True False True False
        [\<lparr>hole = ''fizz-buzz'', lang = ''klingon'', scoring = ''bytes'',
          submitted = ''2024-01-01'', code = ''A''\<rparr>] True Map.empty
       = Inl (KeyError ''klingon'', Map.empty)"
proof -
  let ?s = "\<lparr>hole = ''fizz-buzz'', lang = ''klingon'', scoring = ''bytes'',
          submitted = ''2024-01-01'', code = ''A''\<rparr>"
  have unknown: "''klingon'' \<notin> fst ` set LANGUAGE_NAMES_EXTENSIONS"
    by (simp add: LANGUAGE_NAMES_EXTENSIONS_def)
  note inst = unknown_language_fails [OF unknown, of HOLE_EXTENSION "''fizz-buzz''" "Some ''bytes''"
      ?s "[?s]" None True True Map.empty "''out''" False True False True]
  from inst have resolve: "get_solution_path HOLE_EXTENSION ''fizz-buzz'' ''klingon'' (Some ''bytes'')
       = Inl (KeyError ''klingon'')"
    by simp
  from inst obtain l where
    agg: "compute_final_state HOLE_EXTENSION None True [?s] = Inl (KeyError l)" and
    run: "main ''out'' HOLE_EXTENSION None False True False True False [?s] True Map.empty
       = Inl (KeyError l, Map.empty)"
    by auto
  have "compute_final_state HOLE_EXTENSION None True [?s] = Inl (KeyError ''klingon'')"
    by (simp add: compute_final_state_def process_solution_def collect_codes_def add_code_def
          py_not_def Let_def get_solution_path_unknown [OF unknown])
  with agg have "l = ''klingon''" by simp
  with unknown resolve agg run show ?thesis by simp
qed

section \<open>Reasoning about the walk\<close>

subsection \<open>One level of the walk\<close>

lemma paths_of_append [simp]:
  "paths_of k (append_changes a b) = paths_of k a @ paths_of k b"
  by (cases k) (simp_all add: append_changes_def)

lemma paths_of_no_changes [simp]: "paths_of k no_changes = []"
  by (cases k) (simp_all add: no_changes_def)

lemma append_changes_assoc:
  "append_changes (append_changes a b) c = append_changes a (append_changes b c)"
  by (simp add: append_changes_def)

lemma append_no_changes [simp]:
  "append_changes no_changes a = a" "append_changes a no_changes = a"
  by (simp_all add: append_changes_def no_changes_def)

lemma isfile_isdir_exists:
  "os_path_isfile fs p \<Longrightarrow> os_path_exists fs p"
  "os_path_isdir fs p \<Longrightarrow> os_path_exists fs p"
  "os_path_isfile fs p \<Longrightarrow> \<not> os_path_isdir fs p"
  by (auto simp: os_path_isfile_def os_path_isdir_def os_path_exists_def
           split: option.splits node.splits)

lemma visit_acc:
  "visit fs sd cur needed f (ch, ex) =
     (case visit fs sd cur needed f (no_changes, []) of
        Inl e \<Rightarrow> Inl e
      | Inr (d, ex') \<Rightarrow> Inr (append_changes ch d, ex @ ex'))"
  by (cases ch)
     (simp add: visit_def Let_def append_changes_def no_changes_def
           split: option.splits list.splits sum.splits)

lemma visit_paths:
  assumes "visit fs sd cur needed f (ch, ex) = Inr (ch', ex')"
  shows "paths_of k ch' =
         paths_of k ch @ (if level_cond fs sd cur needed k f then [os_path_join cur f] else [])"
proof (cases "map_of needed f")
  case None
  with assms show ?thesis
    by (cases k) (auto simp: visit_def level_cond_def Let_def split: if_splits)
next
  case (Some files_data)
  show ?thesis
  proof (cases "dir_needed needed f")
    case True
    with Some have deep: "\<forall>fd \<in> set files_data. 1 < length (parts fd)"
      by (simp add: dir_needed_def)
    with assms Some True show ?thesis
      by (cases k) (auto simp: visit_def level_cond_def Let_def isfile_isdir_exists split: if_splits)
  next
    case False
    with Some have shallow: "\<not> (\<forall>fd \<in> set files_data. 1 < length (parts fd))"
      by (simp add: dir_needed_def)
    with assms Some obtain fd where one: "files_data = [fd]"
      by (auto simp: visit_def Let_def split: list.splits if_splits)
    from assms Some False shallow one show ?thesis
      by (cases k)
         (auto simp: visit_def level_cond_def Let_def isfile_isdir_exists
               split: if_splits sum.splits)
  qed
qed

lemma for_each_visit_acc:
  "for_each (visit fs sd cur needed) names (ch, ex) =
     (case for_each (visit fs sd cur needed) names (no_changes, []) of
        Inl e \<Rightarrow> Inl e
      | Inr (d, ex') \<Rightarrow> Inr (append_changes ch d, ex @ ex'))"
proof (induction names arbitrary: ch ex)
  case Nil
  then show ?case by simp
next
  case (Cons f names)
  show ?case
  proof (cases "visit fs sd cur needed f (no_changes, [])")
    case (Inl e)
    then show ?thesis using visit_acc [of fs sd cur needed f ch ex] by simp
  next
    case (Inr r)
    obtain d1 e1 where r: "r = (d1, e1)" by (cases r)
    have here: "visit fs sd cur needed f (ch, ex) = Inr (append_changes ch d1, ex @ e1)"
      using visit_acc [of fs sd cur needed f ch ex] Inr r by simp
    show ?thesis
      using Cons.IH [of "append_changes ch d1" "ex @ e1"] Cons.IH [of d1 e1] here Inr r
      by (auto simp: append_changes_assoc split: sum.splits)
  qed
qed

lemma scan_acc:
  "scan fs sd cur needed names ch =
     (case scan fs sd cur needed names no_changes of
        Inl e \<Rightarrow> Inl e
      | Inr (d, ex) \<Rightarrow> Inr (append_changes ch d, ex))"
  using for_each_visit_acc [of fs sd cur needed names ch "[]"]
  by (auto simp: scan_def split: sum.splits)

lemma for_each_visit_paths:
  "for_each (visit fs sd cur needed) names (ch, ex) = Inr (ch', ex') \<Longrightarrow>
   paths_of k ch' = paths_of k ch @ map (os_path_join cur) (filter (level_cond fs sd cur needed k) names)"
proof (induction names arbitrary: ch ex)
  case Nil
  then show ?case by simp
next
  case (Cons f names)
  from Cons.prems obtain ch1 ex1 where
    v: "visit fs sd cur needed f (ch, ex) = Inr (ch1, ex1)" and
    r: "for_each (visit fs sd cur needed) names (ch1, ex1) = Inr (ch', ex')"
    by (auto split: sum.splits)
  from visit_paths [OF v, of k] Cons.IH [OF r] show ?case by simp
qed

lemma scan_paths:
  "scan fs sd cur needed names no_changes = Inr (d, ex) \<Longrightarrow>
   paths_of k d = map (os_path_join cur) (filter (level_cond fs sd cur needed k) names)"
  using for_each_visit_paths [of fs sd cur needed names no_changes "[]" d ex k]
  by (simp add: scan_def)

subsection \<open>The accumulator does not matter\<close>

lemma for_each_acc:
  assumes "\<And>x a. x \<in> set xs \<Longrightarrow>
      body x a = (case g x of Inl e \<Rightarrow> Inl e | Inr d \<Rightarrow> Inr (append_changes a d))"
  shows "for_each body xs a =
      (case for_each (\<lambda>x acc. case g x of Inl e \<Rightarrow> Inl e | Inr d \<Rightarrow> Inr (append_changes acc d))
              xs no_changes of
         Inl e \<Rightarrow> Inl e
       | Inr d \<Rightarrow> Inr (append_changes a d))"
  using assms
proof (induction xs arbitrary: a body)
  case Nil
  then show ?case by simp
next
  case (Cons x xs)
  let ?b = "\<lambda>x acc. case g x of Inl e \<Rightarrow> Inl e | Inr d \<Rightarrow> Inr (append_changes acc d)"
  have ih: "for_each body xs a' =
      (case for_each ?b xs no_changes of Inl e \<Rightarrow> Inl e | Inr d \<Rightarrow> Inr (append_changes a' d))" for a'
    by (rule Cons.IH) (simp add: Cons.prems)
  have ih2: "for_each ?b xs a' =
      (case for_each ?b xs no_changes of Inl e \<Rightarrow> Inl e | Inr d \<Rightarrow> Inr (append_changes a' d))" for a'
    by (rule Cons.IH) simp
  show ?case
  proof (cases "g x")
    case (Inl e)
    then show ?thesis using Cons.prems [of x a] by simp
  next
    case (Inr d)
    then show ?thesis
      using Cons.prems [of x a] ih [of "append_changes a d"] ih2 [of d]
      by (auto simp: append_changes_assoc split: sum.splits)
  qed
qed

lemma for_each_deltas:
  "for_each (\<lambda>x acc. case g x of Inl e \<Rightarrow> Inl e | Inr d \<Rightarrow> Inr (append_changes acc d)) xs a = Inr r
   \<Longrightarrow> \<exists>ds. list_all2 (\<lambda>x d. g x = Inr d) xs ds \<and> r = foldl append_changes a ds"
proof (induction xs arbitrary: a)
  case Nil
  then show ?case by simp
next
  case (Cons x xs)
  from Cons.prems obtain d where d: "g x = Inr d"
    by (cases "g x") auto
  with Cons.prems have "for_each (\<lambda>x acc. case g x of Inl e \<Rightarrow> Inl e | Inr d \<Rightarrow> Inr (append_changes acc d)) xs (append_changes a d) = Inr r"
    by simp
  from Cons.IH [OF this] obtain ds where
    "list_all2 (\<lambda>x d. g x = Inr d) xs ds" and "r = foldl append_changes (append_changes a d) ds"
    by blast
  with d have "list_all2 (\<lambda>x d. g x = Inr d) (x # xs) (d # ds) \<and> r = foldl append_changes a (d # ds)"
    by simp
  then show ?case by blast
qed

lemma paths_of_foldl:
  "paths_of k (foldl append_changes a ds) = paths_of k a @ concat (map (paths_of k) ds)"
  by (induction ds arbitrary: a) simp_all

lemma walk_acc:
  "walk_recursive fs sd cur children ch =
     (case walk_recursive fs sd cur children no_changes of
        Inl e \<Rightarrow> Inl e
      | Inr d \<Rightarrow> Inr (append_changes ch d))"
proof (induction fs sd cur children ch rule: walk_recursive.induct)
  case (1 fs sd cur children ch)
  show ?case
  proof (cases "current_listing fs cur")
    case (Inl e)
    then show ?thesis by (simp add: walk_recursive.simps [of fs sd cur children])
  next
    case listing: (Inr listing)
    show ?thesis
    proof (cases "build_needed children")
      case (Inl e)
      with listing show ?thesis by (simp add: walk_recursive.simps [of fs sd cur children])
    next
      case needed: (Inr needed)
      show ?thesis
      proof (cases "scan fs sd cur needed (all_files_of listing needed) no_changes")
        case (Inl e)
        with listing needed scan_acc [of fs sd cur needed "all_files_of listing needed" ch]
        show ?thesis by (simp add: walk_recursive.simps [of fs sd cur children])
      next
        case (Inr r)
        obtain d0 explore where r: "r = (d0, explore)" by (cases r)
        have s0: "scan fs sd cur needed (all_files_of listing needed) no_changes = Inr (d0, explore)"
          using Inr r by simp
        have s1: "scan fs sd cur needed (all_files_of listing needed) ch
            = Inr (append_changes ch d0, explore)"
          using scan_acc [of fs sd cur needed "all_files_of listing needed" ch] s0 by simp
        let ?body = "\<lambda>file acc.
            case map_of needed file of
              None \<Rightarrow> Inl (KeyError file)
            | Some cs \<Rightarrow> walk_recursive fs sd (os_path_join cur file) (map advance cs) acc"
        let ?g = "\<lambda>file. case map_of needed file of
              None \<Rightarrow> Inl (KeyError file)
            | Some cs \<Rightarrow> walk_recursive fs sd (os_path_join cur file) (map advance cs) no_changes"
        have pointwise: "?body x a = (case ?g x of Inl e \<Rightarrow> Inl e | Inr d \<Rightarrow> Inr (append_changes a d))"
          if "x \<in> set explore" for x a
        proof (cases "map_of needed x")
          case None
          then show ?thesis by simp
        next
          case (Some cs)
          from "1.IH" [OF listing needed s1 refl that Some, of a] Some
          show ?thesis by simp
        qed
        have w: "walk_recursive fs sd cur children a = for_each ?body explore (append_changes a d0)" for a
          using listing needed scan_acc [of fs sd cur needed "all_files_of listing needed" a] s0
          by (simp add: walk_recursive.simps [of fs sd cur children])
        show ?thesis
          unfolding w
          using for_each_acc [of explore ?body ?g "append_changes ch d0", OF pointwise]
            for_each_acc [of explore ?body ?g "append_changes no_changes d0", OF pointwise]
          by (auto simp: append_changes_assoc split: sum.splits)
      qed
    qed
  qed
qed

lemma dir_needed_group:
  assumes "build_needed children = Inr needed" and "dir_needed needed f"
  shows "map_of needed f = Some (group_of f children)"
    and "group_of f children \<noteq> []"
    and "\<forall>c \<in> set (group_of f children). 1 < length (parts c)"
  using assms build_needed_lookup(1) [OF assms(1), of f]
  by (auto simp: dir_needed_def split: option.splits if_splits)

lemma walk_unfold:
  assumes "walk_recursive fs sd cur children no_changes = Inr r"
  obtains listing needed d0 explore subs where
    "current_listing fs cur = Inr listing"
    "build_needed children = Inr needed"
    "scan fs sd cur needed (all_files_of listing needed) no_changes = Inr (d0, explore)"
    "explore = filter (dir_needed needed) (all_files_of listing needed)"
    "list_all2 (\<lambda>f d. sub_walk fs sd cur children f = Inr d) explore subs"
    "r = foldl append_changes d0 subs"
proof -
  from assms obtain listing where listing: "current_listing fs cur = Inr listing"
    by (cases "current_listing fs cur") (auto simp: walk_recursive.simps [of fs sd cur children])
  from assms listing obtain needed where needed: "build_needed children = Inr needed"
    by (cases "build_needed children") (auto simp: walk_recursive.simps [of fs sd cur children])
  from assms listing needed obtain d0 explore where
    s0: "scan fs sd cur needed (all_files_of listing needed) no_changes = Inr (d0, explore)"
    by (cases "scan fs sd cur needed (all_files_of listing needed) no_changes")
       (auto simp: walk_recursive.simps [of fs sd cur children])
  have ex: "explore = filter (dir_needed needed) (all_files_of listing needed)"
    by (rule scan_explore [OF s0])
  let ?body = "\<lambda>file acc.
      case map_of needed file of
        None \<Rightarrow> Inl (KeyError file)
      | Some cs \<Rightarrow> walk_recursive fs sd (os_path_join cur file) (map advance cs) acc"
  have pointwise: "?body x a =
      (case sub_walk fs sd cur children x of Inl e \<Rightarrow> Inl e | Inr d \<Rightarrow> Inr (append_changes a d))"
    if "x \<in> set explore" for x a
  proof -
    from that ex have "dir_needed needed x" by simp
    from dir_needed_group(1) [OF needed this]
    show ?thesis
      using walk_acc [of fs sd "os_path_join cur x" "map advance (group_of x children)" a]
      by (simp add: sub_walk_def)
  qed
  from assms listing needed s0 have "for_each ?body explore d0 = Inr r"
    by (simp add: walk_recursive.simps [of fs sd cur children])
  with for_each_acc [of explore ?body "sub_walk fs sd cur children" d0, OF pointwise]
  obtain D where D: "for_each (\<lambda>x acc. case sub_walk fs sd cur children x of
        Inl e \<Rightarrow> Inl e | Inr d \<Rightarrow> Inr (append_changes acc d)) explore no_changes = Inr D"
    and r: "r = append_changes d0 D"
    by (auto split: sum.splits)
  from for_each_deltas [OF D] obtain subs where
    subs: "list_all2 (\<lambda>f d. sub_walk fs sd cur children f = Inr d) explore subs"
    and "D = foldl append_changes no_changes subs"
    by blast
  with r have "r = foldl append_changes d0 subs"
  proof -
    have "append_changes a (foldl append_changes b ds) = foldl append_changes (append_changes a b) ds"
      for a b ds
      by (induction ds arbitrary: b) (simp_all add: append_changes_assoc)
    from this [of d0 no_changes subs] r \<open>D = foldl append_changes no_changes subs\<close>
    show ?thesis by simp
  qed
  with that listing needed s0 ex subs show thesis by blast
qed

lemma walk_induct [consumes 0, case_names level]:
  assumes step: "\<And>cur children.
      (\<And>f listing needed d0 explore.
          current_listing fs cur = Inr listing \<Longrightarrow>
          build_needed children = Inr needed \<Longrightarrow>
          scan fs sd cur needed (all_files_of listing needed) no_changes = Inr (d0, explore) \<Longrightarrow>
          f \<in> set explore \<Longrightarrow>
          P (os_path_join cur f) (map advance (group_of f children))) \<Longrightarrow>
      P cur children"
  shows "P cur children"
proof -
  have "fs' = fs \<longrightarrow> sd' = sd \<longrightarrow> P cur children" for fs' sd' and ch :: changes
  proof (induction fs' sd' cur children ch rule: walk_recursive.induct)
    case (1 fs' sd' cur children ch)
    show ?case
    proof (intro impI)
      assume eq: "fs' = fs" "sd' = sd"
      show "P cur children"
      proof (rule step)
        fix f listing needed d0 explore
        assume l: "current_listing fs cur = Inr listing"
          and n: "build_needed children = Inr needed"
          and s: "scan fs sd cur needed (all_files_of listing needed) no_changes = Inr (d0, explore)"
          and f: "f \<in> set explore"
        have s': "scan fs' sd' cur needed (all_files_of listing needed) ch
            = Inr (append_changes ch d0, explore)"
          using scan_acc [of fs sd cur needed "all_files_of listing needed" ch] s eq by simp
        from scan_explore [OF s] f have "dir_needed needed f" by simp
        from dir_needed_group(1) [OF n this]
        have m: "map_of needed f = Some (group_of f children)" .
        from "1.IH" [OF l [folded eq(1)] n s' refl f m] eq
        show "P (os_path_join cur f) (map advance (group_of f children))" by simp
      qed
    qed
  qed
  then show ?thesis by simp
qed

subsection \<open>Children no path of which is a prefix of another\<close>

lemma str_split_not_Nil [simp]: "str_split sep s \<noteq> []"
  by (induction s) (auto split: list.splits)

lemma str_join_split: "str_join sep (str_split sep s) = s"
proof (induction s)
  case Nil
  then show ?case by simp
next
  case (Cons c cs)
  obtain w ws where w: "str_split sep cs = w # ws"
    by (cases "str_split sep cs") simp_all
  with Cons show ?case
    by (cases ws) auto
qed

lemma str_split_inj: "str_split sep s = str_split sep s' \<Longrightarrow> s = s'"
  by (metis str_join_split)

lemma str_split_no_sep: "w \<in> set (str_split sep s) \<Longrightarrow> sep \<notin> set w"
proof (induction s arbitrary: w)
  case Nil
  then show ?case by simp
next
  case (Cons c cs)
  obtain v vs where v: "str_split sep cs = v # vs"
    by (cases "str_split sep cs") simp_all
  with Cons show ?case
    by (auto split: if_splits)
qed

lemma group_of_parts:
  "c \<in> set (group_of f cs) \<Longrightarrow> c \<in> set cs \<and> parts c \<noteq> [] \<and> hd (parts c) = f"
  by (simp add: group_of_def)

lemma prefix_free_group:
  assumes "prefix_free cs"
  shows "prefix_free (map advance (group_of f cs))"
proof -
  let ?g = "group_of f cs"
  have dg: "distinct (map parts ?g)"
    using assms unfolding prefix_free_def group_of_def by (simp add: distinct_map_filter)
  have shape: "parts c = f # tl (parts c)" if "c \<in> set ?g" for c
    using group_of_parts [OF that] by (cases "parts c") simp_all
  have "inj_on tl (set (map parts ?g))"
  proof (rule inj_onI)
    fix a b assume "a \<in> set (map parts ?g)" "b \<in> set (map parts ?g)" "tl a = tl b"
    then obtain c c' where "c \<in> set ?g" "a = parts c" "c' \<in> set ?g" "b = parts c'"
      by auto
    with shape [of c] shape [of c'] \<open>tl a = tl b\<close> show "a = b" by simp
  qed
  with dg have "distinct (map tl (map parts ?g))"
    by (simp only: distinct_map)
  then have d: "distinct (map parts (map advance ?g))"
    by (simp add: comp_def advance_def)
  have "\<not> strict_prefix (parts a) (parts b)"
    if "a \<in> set (map advance ?g)" "b \<in> set (map advance ?g)" for a b
  proof -
    from that obtain c c' where c: "c \<in> set ?g" "a = advance c" "c' \<in> set ?g" "b = advance c'"
      by auto
    from c group_of_parts assms have "\<not> strict_prefix (parts c) (parts c')"
      unfolding prefix_free_def by blast
    moreover have "parts c = f # parts a" "parts c' = f # parts b"
      using shape [OF c(1)] shape [OF c(3)] c(2,4) by (simp_all add: advance_def)
    ultimately show ?thesis by (simp add: strict_prefix_def)
  qed
  with d show ?thesis unfolding prefix_free_def by blast
qed

lemma single_leaf_claim:
  assumes free: "prefix_free cs"
    and shallow: "\<not> (\<forall>c \<in> set (group_of f cs). 1 < length (parts c))"
  shows "\<exists>fd. group_of f cs = [fd]"
proof -
  let ?g = "group_of f cs"
  from shallow obtain c where c: "c \<in> set ?g" "length (parts c) \<le> 1" by force
  with group_of_parts [OF c(1)] have pc: "parts c = [f]"
    by (cases "parts c") simp_all
  have all: "parts c' = [f]" if "c' \<in> set ?g" for c'
  proof (rule ccontr)
    assume ne: "parts c' \<noteq> [f]"
    from group_of_parts [OF that] obtain rest where "parts c' = f # rest"
      by (cases "parts c'") auto
    with ne pc have "strict_prefix (parts c) (parts c')" by (simp add: strict_prefix_def)
    moreover have "c \<in> set cs" "c' \<in> set cs"
      using group_of_parts c(1) that by blast+
    ultimately show False using free unfolding prefix_free_def by blast
  qed
  have dg: "distinct (map parts ?g)"
    using free unfolding prefix_free_def group_of_def by (simp add: distinct_map_filter)
  from c(1) obtain x xs where g: "?g = x # xs" by (cases ?g) auto
  have "xs = []"
  proof (cases xs)
    case Nil
    then show ?thesis .
  next
    case (Cons y ys)
    with g all [of x] all [of y] have "parts x = parts y" by simp
    with dg g Cons show ?thesis by simp
  qed
  with g show ?thesis by simp
qed

lemma for_each_error:
  "for_each body xs s = Inl e \<Longrightarrow> \<exists>x \<in> set xs. \<exists>s'. body x s' = Inl e"
proof (induction xs arbitrary: s)
  case Nil
  then show ?case by simp
next
  case (Cons x xs)
  then show ?case by (cases "body x s") auto
qed

lemma read_text_file:
  "os_path_isfile fs p \<Longrightarrow> \<exists>c. read_text fs p = Inr c"
  by (auto simp: os_path_isfile_def read_text_def split: option.splits node.splits)

lemma build_needed_error:
  assumes "build_needed cs = Inl e"
  shows "e = IndexError"
proof -
  from for_each_error [OF assms [unfolded build_needed_def]]
  obtain c n where "add_needed c n = Inl e" by blast
  then show ?thesis by (auto simp: add_needed_def split: list.splits)
qed

lemma current_listing_error:
  assumes "current_listing fs cur = Inl e"
  shows "e = NotADirectoryError cur"
  using assms
  by (auto simp: current_listing_def os_listdir_def os_path_exists_def
           split: if_splits option.splits node.splits)

lemma visit_no_assertion:
  assumes "prefix_free cs" and "build_needed cs = Inr needed"
  shows "visit fs sd cur needed f st \<noteq> Inl AssertionError"
proof (cases "map_of needed f")
  case None
  then show ?thesis by (simp add: visit_def Let_def)
next
  case (Some files_data)
  with build_needed_lookup(1) [OF assms(2), of f]
  have g: "files_data = group_of f cs" by (auto split: if_splits)
  show ?thesis
  proof (cases "\<forall>c \<in> set files_data. 1 < length (parts c)")
    case True
    with Some show ?thesis by (simp add: visit_def Let_def)
  next
    case False
    with single_leaf_claim [OF assms(1), of f] g obtain fd where "files_data = [fd]" by auto
    with Some False show ?thesis
      using read_text_file [of fs "os_path_join cur f"]
      by (auto simp: visit_def Let_def split: sum.splits)
  qed
qed

lemma walk_error_acc:
  "walk_recursive fs sd cur cs ch = Inl e \<longleftrightarrow> walk_recursive fs sd cur cs no_changes = Inl e"
  using walk_acc [of fs sd cur cs ch] by (auto split: sum.splits)

lemma walk_no_assertion:
  "prefix_free cs \<Longrightarrow> walk_recursive fs sd cur cs no_changes \<noteq> Inl AssertionError"
proof (induction cur cs rule: walk_induct [where fs = fs and sd = sd])
  case (level cur children)
  show ?case
  proof
    assume fails: "walk_recursive fs sd cur children no_changes = Inl AssertionError"
    from fails obtain listing where l: "current_listing fs cur = Inr listing"
      using current_listing_error [of fs cur]
      by (cases "current_listing fs cur")
         (auto simp: walk_recursive.simps [of fs sd cur children])
    from fails l obtain needed where n: "build_needed children = Inr needed"
      using build_needed_error [of children]
      by (cases "build_needed children")
         (auto simp: walk_recursive.simps [of fs sd cur children])
    let ?names = "all_files_of listing needed"
    show False
    proof (cases "scan fs sd cur needed ?names no_changes")
      case (Inl e)
      with fails l n have "scan fs sd cur needed ?names no_changes = Inl AssertionError"
        by (simp add: walk_recursive.simps [of fs sd cur children])
      from for_each_error [OF this [unfolded scan_def]]
        visit_no_assertion [OF level.prems n]
      show False by blast
    next
      case (Inr r)
      obtain d0 explore where r: "r = (d0, explore)" by (cases r)
      with Inr have s: "scan fs sd cur needed ?names no_changes = Inr (d0, explore)" by simp
      let ?body = "\<lambda>file acc.
          case map_of needed file of
            None \<Rightarrow> Inl (KeyError file)
          | Some cs \<Rightarrow> walk_recursive fs sd (os_path_join cur file) (map advance cs) acc"
      from fails l n s have "for_each ?body explore d0 = Inl AssertionError"
        by (simp add: walk_recursive.simps [of fs sd cur children])
      from for_each_error [OF this] obtain f a where
        f: "f \<in> set explore" and b: "?body f a = Inl AssertionError"
        by blast
      from scan_explore [OF s] f have "dir_needed needed f" by simp
      from dir_needed_group(1) [OF n this] b
      have "walk_recursive fs sd (os_path_join cur f) (map advance (group_of f children)) a
          = Inl AssertionError"
        by simp
      then have "walk_recursive fs sd (os_path_join cur f) (map advance (group_of f children)) no_changes
          = Inl AssertionError"
        by (simp only: walk_error_acc [of _ _ _ _ a])
      with level.IH [OF l n s f prefix_free_group [OF level.prems]]
      show False by simp
    qed
  qed
qed

subsection \<open>File names and the shape of the paths\<close>

lemma join_valid: "valid_name f \<Longrightarrow> os_path_join cur f = norm_dir cur @ f"
  by (cases f) (auto simp: valid_name_def os_path_join_def norm_dir_def)

lemma norm_join: "valid_name f \<Longrightarrow> norm_dir (os_path_join cur f) = norm_dir cur @ f @ ''/''"
proof -
  assume v: "valid_name f"
  then have ne: "f \<noteq> []" and free: "CHR ''/'' \<notin> set f"
    by (simp_all add: valid_name_def)
  from last_in_set [OF ne] free have "last f \<noteq> CHR ''/''" by metis
  with ne have "f \<noteq> []" and "last f \<noteq> CHR ''/''" by simp_all
  then show ?thesis
    by (simp add: join_valid [OF v]) (simp add: norm_dir_def)
qed

lemma join_inj:
  "valid_name f \<Longrightarrow> valid_name g \<Longrightarrow> os_path_join cur f = os_path_join cur g \<Longrightarrow> f = g"
  by (simp add: join_valid)

lemma first_segment:
  assumes "valid_name f" "valid_name g" "f @ CHR ''/'' # r = g @ CHR ''/'' # r'"
  shows "f = g"
proof -
  have "takeWhile (\<lambda>c. c \<noteq> CHR ''/'') (h @ CHR ''/'' # x) = h" if "valid_name h" for h x
  proof -
    have "takeWhile (\<lambda>c. c \<noteq> CHR ''/'') (h @ CHR ''/'' # x)
        = h @ takeWhile (\<lambda>c. c \<noteq> CHR ''/'') (CHR ''/'' # x)"
      by (rule takeWhile_append2) (use that in \<open>auto simp: valid_name_def\<close>)
    then show ?thesis by simp
  qed
  from this [OF assms(1), of r] this [OF assms(2), of r'] assms(3) show ?thesis by simp
qed

lemma slash_not_in_name:
  assumes "valid_name g"
  shows "g \<noteq> f @ CHR ''/'' # r"
  using assms by (auto simp: valid_name_def)

lemma valid_children_group:
  assumes "valid_children cs"
  shows "valid_children (map advance (group_of f cs))"
proof -
  have tl_sub: "set (tl xs) \<subseteq> set xs" for xs :: "string list" by (cases xs) auto
  show ?thesis
    unfolding valid_children_def
  proof (intro ballI)
    fix c n assume c: "c \<in> set (map advance (group_of f cs))" and n: "n \<in> set (parts c)"
    from c obtain c0 where c0: "c0 \<in> set (group_of f cs)" "c = advance c0" by auto
    from n c0(2) have "n \<in> set (tl (parts c0))" by (simp add: advance_def)
    with tl_sub have "n \<in> set (parts c0)" by blast
    moreover from group_of_parts [OF c0(1)] have "c0 \<in> set cs" by simp
    ultimately show "valid_name n" using assms unfolding valid_children_def by blast
  qed
qed

lemma set_all_files_of:
  "set (all_files_of listing needed) = set listing \<union> fst ` set needed"
  by (simp add: all_files_of_def)

lemma needed_key_head:
  assumes "build_needed cs = Inr needed" and "f \<in> fst ` set needed"
  shows "\<exists>c \<in> set cs. parts c \<noteq> [] \<and> hd (parts c) = f"
proof -
  from assms(2) have "map_of needed f \<noteq> None" by (simp add: map_of_eq_None_iff)
  with build_needed_lookup(1) [OF assms(1), of f] have "group_of f cs \<noteq> []"
    by (auto split: if_splits)
  then obtain c where "c \<in> set (group_of f cs)" by (cases "group_of f cs") auto
  from group_of_parts [OF this] show ?thesis by blast
qed

lemma listing_ok:
  "current_listing fs p = Inr l \<Longrightarrow>
   (\<not> os_path_exists fs p \<and> l = []) \<or> fs p = Some (Dir l)"
  by (auto simp: current_listing_def os_listdir_def os_path_exists_def
           split: if_splits option.splits node.splits)

lemma all_files_valid:
  assumes "current_listing fs cur = Inr listing" and "valid_fs fs"
    and "build_needed cs = Inr needed" and "valid_children cs"
    and "f \<in> set (all_files_of listing needed)"
  shows "valid_name f"
proof -
  from assms(5) consider "f \<in> set listing" | "f \<in> fst ` set needed"
    by (auto simp: set_all_files_of)
  then show ?thesis
  proof cases
    case 1
    with listing_ok [OF assms(1)] assms(2) show ?thesis
      unfolding valid_fs_def by auto
  next
    case 2
    from needed_key_head [OF assms(3) this] obtain c where
      "c \<in> set cs" "parts c \<noteq> []" "hd (parts c) = f" by blast
    with assms(4) show ?thesis
      unfolding valid_children_def by (metis hd_in_set)
  qed
qed

text \<open>Where the paths of a successful walk come from.\<close>

lemma walk_paths:
  assumes "walk_recursive fs sd cur children no_changes = Inr r"
  obtains listing needed d0 explore where
    "current_listing fs cur = Inr listing"
    "build_needed children = Inr needed"
    "scan fs sd cur needed (all_files_of listing needed) no_changes = Inr (d0, explore)"
    "explore = filter (dir_needed needed) (all_files_of listing needed)"
    "\<And>f. f \<in> set explore \<Longrightarrow> \<exists>d. sub_walk fs sd cur children f = Inr d"
    "\<And>k p. p \<in> set (paths_of k r) \<longleftrightarrow>
        (\<exists>f \<in> set (all_files_of listing needed).
            level_cond fs sd cur needed k f \<and> p = os_path_join cur f) \<or>
        (\<exists>f \<in> set explore. \<exists>d. sub_walk fs sd cur children f = Inr d \<and> p \<in> set (paths_of k d))"
proof -
  from walk_unfold [OF assms] obtain listing needed d0 explore subs where
    l: "current_listing fs cur = Inr listing" and
    n: "build_needed children = Inr needed" and
    s: "scan fs sd cur needed (all_files_of listing needed) no_changes = Inr (d0, explore)" and
    e: "explore = filter (dir_needed needed) (all_files_of listing needed)" and
    subs: "list_all2 (\<lambda>f d. sub_walk fs sd cur children f = Inr d) explore subs" and
    r: "r = foldl append_changes d0 subs"
    by blast
  have every: "\<exists>d. sub_walk fs sd cur children f = Inr d" if "f \<in> set explore" for f
    using subs that by (auto simp: list_all2_conv_all_nth in_set_conv_nth)
  have conv: "d \<in> set subs \<longleftrightarrow> (\<exists>f \<in> set explore. sub_walk fs sd cur children f = Inr d)" for d
  proof
    assume "d \<in> set subs"
    then obtain i where "i < length subs" "subs ! i = d" by (auto simp: in_set_conv_nth)
    with subs have "explore ! i \<in> set explore" "sub_walk fs sd cur children (explore ! i) = Inr d"
      by (auto simp: list_all2_conv_all_nth)
    then show "\<exists>f \<in> set explore. sub_walk fs sd cur children f = Inr d" by blast
  next
    assume "\<exists>f \<in> set explore. sub_walk fs sd cur children f = Inr d"
    then obtain i where "i < length explore" "sub_walk fs sd cur children (explore ! i) = Inr d"
      by (auto simp: in_set_conv_nth)
    with subs have "subs ! i = d" "i < length subs"
      by (auto simp: list_all2_conv_all_nth)
    then show "d \<in> set subs" by auto
  qed
  have mem: "p \<in> set (paths_of k r) \<longleftrightarrow>
        (\<exists>f \<in> set (all_files_of listing needed).
            level_cond fs sd cur needed k f \<and> p = os_path_join cur f) \<or>
        (\<exists>f \<in> set explore. \<exists>d. sub_walk fs sd cur children f = Inr d \<and> p \<in> set (paths_of k d))"
    for k p
  proof -
    have "p \<in> set (paths_of k r) \<longleftrightarrow>
        p \<in> set (paths_of k d0) \<or> (\<exists>d \<in> set subs. p \<in> set (paths_of k d))"
      unfolding r paths_of_foldl by simp
    also have "p \<in> set (paths_of k d0) \<longleftrightarrow>
        (\<exists>f \<in> set (all_files_of listing needed).
            level_cond fs sd cur needed k f \<and> p = os_path_join cur f)"
      unfolding scan_paths [OF s] by auto
    also have "(\<exists>d \<in> set subs. p \<in> set (paths_of k d)) \<longleftrightarrow>
        (\<exists>f \<in> set explore. \<exists>d. sub_walk fs sd cur children f = Inr d \<and> p \<in> set (paths_of k d))"
      using conv by blast
    finally show ?thesis .
  qed
  from that [OF l n s e every mem] show thesis .
qed

lemma walk_shape:
  assumes vfs: "valid_fs fs"
  shows "valid_children cs \<Longrightarrow>
   walk_recursive fs sd cur cs no_changes = Inr r \<Longrightarrow> p \<in> set (paths_of k r) \<Longrightarrow>
   \<exists>rest. rest \<noteq> [] \<and> p = norm_dir cur @ rest"
proof -
  let ?P = "\<lambda>cur cs. valid_children cs \<longrightarrow>
      (\<forall>r p. walk_recursive fs sd cur cs no_changes = Inr r \<longrightarrow> p \<in> set (paths_of k r) \<longrightarrow>
         (\<exists>rest. rest \<noteq> [] \<and> p = norm_dir cur @ rest))"
  have "?P cur cs"
  proof (rule walk_induct [where fs = fs and sd = sd and P = ?P], intro impI allI)
    fix cur children r p
    assume IH: "\<And>f listing needed d0 explore.
          current_listing fs cur = Inr listing \<Longrightarrow>
          build_needed children = Inr needed \<Longrightarrow>
          scan fs sd cur needed (all_files_of listing needed) no_changes = Inr (d0, explore) \<Longrightarrow>
          f \<in> set explore \<Longrightarrow>
          ?P (os_path_join cur f) (map advance (group_of f children))"
      and vc: "valid_children children"
      and run: "walk_recursive fs sd cur children no_changes = Inr r"
      and p: "p \<in> set (paths_of k r)"
    show "\<exists>rest. rest \<noteq> [] \<and> p = norm_dir cur @ rest"
    proof (rule walk_paths [OF run])
    fix listing needed d0 explore
    assume l: "current_listing fs cur = Inr listing" and
      n: "build_needed children = Inr needed" and
      s: "scan fs sd cur needed (all_files_of listing needed) no_changes = Inr (d0, explore)" and
      e: "explore = filter (dir_needed needed) (all_files_of listing needed)" and
      every: "\<And>f. f \<in> set explore \<Longrightarrow> \<exists>d. sub_walk fs sd cur children f = Inr d" and
      mem: "\<And>k p. p \<in> set (paths_of k r) \<longleftrightarrow>
          (\<exists>f \<in> set (all_files_of listing needed).
              level_cond fs sd cur needed k f \<and> p = os_path_join cur f) \<or>
          (\<exists>f \<in> set explore. \<exists>d. sub_walk fs sd cur children f = Inr d \<and> p \<in> set (paths_of k d))"
    note valid = all_files_valid [OF l vfs n vc]
    from p have "(\<exists>f \<in> set (all_files_of listing needed).
              level_cond fs sd cur needed k f \<and> p = os_path_join cur f) \<or>
          (\<exists>f \<in> set explore. \<exists>d. sub_walk fs sd cur children f = Inr d \<and> p \<in> set (paths_of k d))"
      by (simp only: mem)
    then consider
      (here) f where "f \<in> set (all_files_of listing needed)" "p = os_path_join cur f"
      | (below) f d where "f \<in> set explore" "sub_walk fs sd cur children f = Inr d"
          "p \<in> set (paths_of k d)"
      by blast
    then show "\<exists>rest. rest \<noteq> [] \<and> p = norm_dir cur @ rest"
    proof cases
      case here
      from valid [OF here(1)] have "f \<noteq> []" by (simp add: valid_name_def)
      with here(2) join_valid [OF valid [OF here(1)], of cur] show ?thesis by blast
    next
      case below
      from below(1) e have f: "f \<in> set (all_files_of listing needed)" by simp
      from IH [OF l n s below(1)] valid_children_group [OF vc, of f]
        below(2) [unfolded sub_walk_def] below(3)
      obtain rest where "rest \<noteq> []" "p = norm_dir (os_path_join cur f) @ rest" by blast
      with norm_join [OF valid [OF f], of cur] have "p = norm_dir cur @ (f @ ''/'' @ rest)"
        by simp
      then show ?thesis by blast
    qed
    qed
  qed
  then show "valid_children cs \<Longrightarrow>
   walk_recursive fs sd cur cs no_changes = Inr r \<Longrightarrow> p \<in> set (paths_of k r) \<Longrightarrow>
   \<exists>rest. rest \<noteq> [] \<and> p = norm_dir cur @ rest"
    by blast
qed

lemma sub_shape:
  assumes "valid_fs fs" "valid_children cs" "valid_name f"
    and "sub_walk fs sd cur cs f = Inr d" and "p \<in> set (paths_of k d)"
  shows "\<exists>rest. rest \<noteq> [] \<and> p = norm_dir cur @ f @ CHR ''/'' # rest"
proof -
  from walk_shape [OF assms(1) valid_children_group [OF assms(2)]
      assms(4) [unfolded sub_walk_def] assms(5)]
  obtain rest where "rest \<noteq> []" "p = norm_dir (os_path_join cur f) @ rest" by blast
  with norm_join [OF assms(3), of cur] show ?thesis by simp
qed

lemma walk_listing:
  assumes "walk_recursive fs sd cur cs no_changes = Inr r"
  shows "\<not> os_path_exists fs cur \<or> os_path_isdir fs cur"
proof -
  from assms obtain l where "current_listing fs cur = Inr l"
    by (cases "current_listing fs cur") (auto simp: walk_recursive.simps [of fs sd cur cs])
  from listing_ok [OF this] show ?thesis by (auto simp: os_path_isdir_def)
qed

lemma level_clash:
  assumes "level_cond fs sd cur needed k f" and "level_cond fs sd cur needed k' f" and "k \<noteq> k'"
  shows "(dir_needed needed f \<and> os_path_exists fs (os_path_join cur f)
            \<and> \<not> os_path_isdir fs (os_path_join cur f))
       \<or> ({k, k'} = {Deleted, Created} \<and> sd \<and> os_path_exists fs (os_path_join cur f)
            \<and> \<not> os_path_isfile fs (os_path_join cur f))"
  using assms
  by (auto simp: level_cond_def Let_def split: option.splits if_splits)

lemma for_each_success:
  "for_each body xs s = Inr s' \<Longrightarrow> x \<in> set xs \<Longrightarrow> \<exists>a b. body x a = Inr b"
proof (induction xs arbitrary: s)
  case Nil
  then show ?case by simp
next
  case (Cons y ys)
  from Cons.prems(1) obtain s1 where s1: "body y s = Inr s1" "for_each body ys s1 = Inr s'"
    by (cases "body y s") auto
  show ?case
  proof (cases "x = y")
    case True
    with s1(1) show ?thesis by blast
  next
    case False
    with Cons.prems(2) have "x \<in> set ys" by simp
    from Cons.IH [OF s1(2) this] show ?thesis .
  qed
qed

lemma scan_leaf_single:
  assumes "scan fs sd cur needed names ch = Inr res" and "f \<in> set names"
    and "map_of needed f = Some g" and "\<not> dir_needed needed f"
  shows "\<exists>fd. g = [fd]"
proof -
  from for_each_success [OF assms(1) [unfolded scan_def] assms(2)]
  obtain a b where "visit fs sd cur needed f a = Inr b" by blast
  with assms(3,4) show ?thesis
    by (auto simp: visit_def Let_def dir_needed_def split: list.splits if_splits)
qed

lemma descend_shape:
  "segs \<noteq> [] \<Longrightarrow> \<forall>s \<in> set segs. valid_name s \<Longrightarrow>
   \<exists>rest. rest \<noteq> [] \<and> descend cur segs = norm_dir cur @ rest"
proof (induction segs arbitrary: cur)
  case Nil
  then show ?case by simp
next
  case (Cons s segs)
  then have s: "valid_name s" by simp
  show ?case
  proof (cases "segs = []")
    case True
    with s show ?thesis
      by (auto simp: descend_def join_valid valid_name_def)
  next
    case False
    from Cons.IH [OF False, of "os_path_join cur s"] Cons.prems(2)
    obtain rest where "rest \<noteq> []" "descend (os_path_join cur s) segs
        = norm_dir (os_path_join cur s) @ rest"
      by auto
    then have "descend cur (s # segs) = norm_dir cur @ (s @ ''/'' @ rest)"
      by (simp add: descend_def norm_join [OF s])
    then show ?thesis by blast
  qed
qed

lemma ignore_valid: "n \<in> set DEFAULT_IGNORE_LIST \<Longrightarrow> valid_name n"
  by (auto simp: DEFAULT_IGNORE_LIST_def valid_name_def)

lemma walk_clash:
  assumes vfs: "valid_fs fs"
  shows "valid_children cs \<Longrightarrow> walk_recursive fs sd cur cs no_changes = Inr r \<Longrightarrow>
     p \<in> set (paths_of k r) \<Longrightarrow> p \<in> set (paths_of k' r) \<Longrightarrow> k \<noteq> k' \<Longrightarrow>
     {k, k'} = {Deleted, Created} \<and> sd \<and> os_path_exists fs p \<and> \<not> os_path_isfile fs p"
proof -
  let ?Q = "\<lambda>p. {k, k'} = {Deleted, Created} \<and> sd \<and> os_path_exists fs p \<and> \<not> os_path_isfile fs p"
  let ?P = "\<lambda>cur cs. valid_children cs \<longrightarrow>
      (\<forall>r p. walk_recursive fs sd cur cs no_changes = Inr r \<longrightarrow>
         p \<in> set (paths_of k r) \<longrightarrow> p \<in> set (paths_of k' r) \<longrightarrow> k \<noteq> k' \<longrightarrow> ?Q p)"
  have "?P cur cs"
  proof (rule walk_induct [where fs = fs and sd = sd and P = ?P], intro impI allI)
    fix cur children r p
    assume IH: "\<And>f listing needed d0 explore.
          current_listing fs cur = Inr listing \<Longrightarrow>
          build_needed children = Inr needed \<Longrightarrow>
          scan fs sd cur needed (all_files_of listing needed) no_changes = Inr (d0, explore) \<Longrightarrow>
          f \<in> set explore \<Longrightarrow>
          ?P (os_path_join cur f) (map advance (group_of f children))"
      and vc: "valid_children children"
      and run: "walk_recursive fs sd cur children no_changes = Inr r"
      and pk: "p \<in> set (paths_of k r)" and pk': "p \<in> set (paths_of k' r)"
      and diff: "k \<noteq> k'"
    show "?Q p"
    proof (rule walk_paths [OF run])
      fix listing needed d0 explore
      assume l: "current_listing fs cur = Inr listing" and
        n: "build_needed children = Inr needed" and
        s: "scan fs sd cur needed (all_files_of listing needed) no_changes = Inr (d0, explore)" and
        e: "explore = filter (dir_needed needed) (all_files_of listing needed)" and
        every: "\<And>f. f \<in> set explore \<Longrightarrow> \<exists>d. sub_walk fs sd cur children f = Inr d" and
        mem: "\<And>k p. p \<in> set (paths_of k r) \<longleftrightarrow>
            (\<exists>f \<in> set (all_files_of listing needed).
                level_cond fs sd cur needed k f \<and> p = os_path_join cur f) \<or>
            (\<exists>f \<in> set explore. \<exists>d. sub_walk fs sd cur children f = Inr d \<and> p \<in> set (paths_of k d))"
      let ?names = "set (all_files_of listing needed)"
      note valid = all_files_valid [OF l vfs n vc]
      have ex_names: "f \<in> ?names" if "f \<in> set explore" for f using that e by simp
      from pk have "(\<exists>f \<in> ?names. level_cond fs sd cur needed k f \<and> p = os_path_join cur f) \<or>
          (\<exists>f \<in> set explore. \<exists>d. sub_walk fs sd cur children f = Inr d \<and> p \<in> set (paths_of k d))"
        by (simp only: mem)
      then consider
        (here) f where "f \<in> ?names" "level_cond fs sd cur needed k f" "p = os_path_join cur f"
        | (below) f d where "f \<in> set explore" "sub_walk fs sd cur children f = Inr d"
            "p \<in> set (paths_of k d)"
        by blast
      note first = this
      from pk' have "(\<exists>f \<in> ?names. level_cond fs sd cur needed k' f \<and> p = os_path_join cur f) \<or>
          (\<exists>f \<in> set explore. \<exists>d. sub_walk fs sd cur children f = Inr d \<and> p \<in> set (paths_of k' d))"
        by (simp only: mem)
      then consider
        (here') f' where "f' \<in> ?names" "level_cond fs sd cur needed k' f'" "p = os_path_join cur f'"
        | (below') f' d' where "f' \<in> set explore" "sub_walk fs sd cur children f' = Inr d'"
            "p \<in> set (paths_of k' d')"
        by blast
      note second = this
      show "?Q p"
      proof (rule first)
        fix f assume f: "f \<in> ?names" "level_cond fs sd cur needed k f" "p = os_path_join cur f"
        show "?Q p"
        proof (rule second)
          fix f' assume f': "f' \<in> ?names" "level_cond fs sd cur needed k' f'" "p = os_path_join cur f'"
          from f(3) f'(3) have "os_path_join cur f = os_path_join cur f'" by simp
          from join_inj [OF valid [OF f(1)] valid [OF f'(1)] this] have same: "f' = f" by simp
          from level_clash [OF f(2) f'(2) [unfolded same] diff]
          show "?Q p"
          proof
            assume c: "dir_needed needed f \<and> os_path_exists fs (os_path_join cur f)
                \<and> \<not> os_path_isdir fs (os_path_join cur f)"
            with f(1) e have "f \<in> set explore" by simp
            from every [OF this] obtain d where "sub_walk fs sd cur children f = Inr d" by blast
            from walk_listing [OF this [unfolded sub_walk_def]] c show "?Q p" by simp
          next
            assume "{k, k'} = {Deleted, Created} \<and> sd \<and> os_path_exists fs (os_path_join cur f)
                \<and> \<not> os_path_isfile fs (os_path_join cur f)"
            with f(3) show "?Q p" by simp
          qed
        next
          fix f' d' assume f': "f' \<in> set explore" "sub_walk fs sd cur children f' = Inr d'"
            "p \<in> set (paths_of k' d')"
          from sub_shape [OF vfs vc valid [OF ex_names [OF f'(1)]] f'(2) f'(3)]
          obtain rest where "p = norm_dir cur @ f' @ CHR ''/'' # rest" by blast
          with f(3) join_valid [OF valid [OF f(1)], of cur]
          have "f = f' @ CHR ''/'' # rest" by simp
          with slash_not_in_name [OF valid [OF f(1)]] show "?Q p" by blast
        qed
      next
        fix f d assume f: "f \<in> set explore" "sub_walk fs sd cur children f = Inr d"
          "p \<in> set (paths_of k d)"
        from sub_shape [OF vfs vc valid [OF ex_names [OF f(1)]] f(2) f(3)]
        obtain rest where rest: "p = norm_dir cur @ f @ CHR ''/'' # rest" by blast
        show "?Q p"
        proof (rule second)
          fix f' assume f': "f' \<in> ?names" "level_cond fs sd cur needed k' f'" "p = os_path_join cur f'"
          with rest join_valid [OF valid [OF f'(1)], of cur]
          have "f' = f @ CHR ''/'' # rest" by simp
          with slash_not_in_name [OF valid [OF f'(1)]] show "?Q p" by blast
        next
          fix f' d' assume f': "f' \<in> set explore" "sub_walk fs sd cur children f' = Inr d'"
            "p \<in> set (paths_of k' d')"
          from sub_shape [OF vfs vc valid [OF ex_names [OF f'(1)]] f'(2) f'(3)]
          obtain rest' where "p = norm_dir cur @ f' @ CHR ''/'' # rest'" by blast
          with rest have "f @ CHR ''/'' # rest = f' @ CHR ''/'' # rest'" by simp
          from first_segment [OF valid [OF ex_names [OF f(1)]] valid [OF ex_names [OF f'(1)]] this]
          have same: "f' = f" by simp
          with f(2) f'(2) have "d' = d" by simp
          with IH [OF l n s f(1)] valid_children_group [OF vc, of f]
            f(2) [unfolded sub_walk_def] f(3) f'(3) diff
          show "?Q p" by blast
        qed
      qed
    qed
  qed
  then show "valid_children cs \<Longrightarrow> walk_recursive fs sd cur cs no_changes = Inr r \<Longrightarrow>
     p \<in> set (paths_of k r) \<Longrightarrow> p \<in> set (paths_of k' r) \<Longrightarrow> k \<noteq> k' \<Longrightarrow>
     {k, k'} = {Deleted, Created} \<and> sd \<and> os_path_exists fs p \<and> \<not> os_path_isfile fs p"
    by blast
qed

lemma state_children_valid:
  assumes "\<forall>p \<in> set (map fst state). [] \<notin> set (str_split CHR ''/'' p)"
  shows "valid_children
     (map (\<lambda>(path', t). \<lparr>content = content t, parts = str_split CHR ''/'' path'\<rparr>) state)"
  unfolding valid_children_def
proof (intro ballI)
  fix c n
  assume c: "c \<in> set (map (\<lambda>(path', t). \<lparr>content = content t, parts = str_split CHR ''/'' path'\<rparr>) state)"
    and n: "n \<in> set (parts c)"
  from c obtain p t where "(p, t) \<in> set state" "parts c = str_split CHR ''/'' p" by auto
  with n assms str_split_no_sep [of n "CHR ''/''" p] show "valid_name n"
    by (force simp: valid_name_def)
qed

lemma valid_fs_examples:
  "valid_fs fs_file_in_the_way" "valid_fs fs_dir_in_the_way" "valid_fs fs_empty_root"
  "valid_fs Map.empty"
  by (auto simp: valid_fs_def valid_name_def fs_file_in_the_way_def fs_dir_in_the_way_def
        fs_empty_root_def split: if_splits)

section \<open>Properties of the reconciliation\<close>

text \<open>
  \<^bold>\<open>C10.\<close> For a target mapping with pairwise distinct paths in which the segment list of
  no path is a proper prefix of the segment list of another, \<^verbatim>\<open>compute_changes\<close> never
  fails with the \<^verbatim>\<open>AssertionError\<close> of \<^verbatim>\<open>assert len(files_data) == 1\<close>, at any level of
  the recursion, whatever the filesystem, the output path and the deletion setting.
\<close>

theorem leaf_assertion_holds:
  assumes keys: "distinct (map fst state)"
    and free: "\<forall>p \<in> set (map fst state). \<forall>q \<in> set (map fst state).
                 \<not> strict_prefix (str_split CHR ''/'' p) (str_split CHR ''/'' q)"
  shows "compute_changes fs state should_delete output \<noteq> Inl AssertionError"
proof -
  let ?cs = "map (\<lambda>(path', t). \<lparr>content = content t, parts = str_split CHR ''/'' path'\<rparr>) state"
  have parts: "map parts ?cs = map (str_split CHR ''/'') (map fst state)"
    by (induction state) auto
  have "inj_on (str_split CHR ''/'') (set (map fst state))"
    by (rule inj_onI) (rule str_split_inj)
  with keys have "distinct (map parts ?cs)"
    unfolding parts by (simp only: distinct_map) 
  moreover have "\<not> strict_prefix (parts c) (parts c')" if "c \<in> set ?cs" "c' \<in> set ?cs" for c c'
  proof -
    from that have "parts c \<in> set (map parts ?cs)" "parts c' \<in> set (map parts ?cs)"
      by (simp_all del: map_map)
    then obtain p q where "p \<in> set (map fst state)" "parts c = str_split CHR ''/'' p"
      "q \<in> set (map fst state)" "parts c' = str_split CHR ''/'' q"
      unfolding parts by auto
    with free show ?thesis by auto
  qed
  ultimately have "prefix_free ?cs" unfolding prefix_free_def by blast
  from walk_no_assertion [OF this] show ?thesis
    by (simp add: compute_changes_def)
qed

theorem leaf_assertion_holds_witness:
  "compute_changes fs_empty_root
     [(''fizz-buzz/python.py'', \<lparr>content = ''print(1)'', date = ''2024-01-01''\<rparr>),
      (''fizz-buzz/ruby.rb'', \<lparr>content = ''p 1'', date = ''2024-01-02''\<rparr>),
      (''fizz-buzz.py'', \<lparr>content = ''print(1)'', date = ''2024-01-01''\<rparr>)] True ''out''
   \<noteq> Inl AssertionError"
proof -
  let ?st = "[(''fizz-buzz/python.py'', \<lparr>content = ''print(1)'', date = ''2024-01-01''\<rparr>),
      (''fizz-buzz/ruby.rb'', \<lparr>content = ''p 1'', date = ''2024-01-02''\<rparr>),
      (''fizz-buzz.py'', \<lparr>content = ''print(1)'', date = ''2024-01-01''\<rparr>)]"
  have keys: "distinct (map fst ?st)" by simp
  have free: "\<forall>p \<in> set (map fst ?st). \<forall>q \<in> set (map fst ?st).
      \<not> strict_prefix (str_split CHR ''/'' p) (str_split CHR ''/'' q)"
    by simp
  show ?thesis by (rule leaf_assertion_holds [OF keys free])
qed

text \<open>
  \<^bold>\<open>C1.\<close> The claim that the four lists are pairwise disjoint fails: with deletion
  enabled, a needed leaf whose on-disk entry is a directory is put on the paths to delete
  and on the files to create (the delete-then-recreate of lines 214--215).
\<close>

theorem type_conflict_path_in_two_lists:
  "compute_changes fs_dir_in_the_way flat_target True ''out'' =
     Inr \<lparr>to_delete = [''out/fizz-buzz.py''], files_to_update = [],
          files_to_create = [\<lparr>content = ''print(1)'', path = ''out/fizz-buzz.py''\<rparr>],
          directories_to_create = []\<rparr>
   \<and> set (to_delete
          \<lparr>to_delete = [''out/fizz-buzz.py''], files_to_update = [],
           files_to_create = [\<lparr>content = ''print(1)'', path = ''out/fizz-buzz.py''\<rparr>],
           directories_to_create = []\<rparr>)
     \<inter> path ` set (files_to_create
          \<lparr>to_delete = [''out/fizz-buzz.py''], files_to_update = [],
           files_to_create = [\<lparr>content = ''print(1)'', path = ''out/fizz-buzz.py''\<rparr>],
           directories_to_create = []\<rparr>)
     = {''out/fizz-buzz.py''}"
proof -
  have "compute_changes fs_dir_in_the_way flat_target True ''out'' =
     Inr \<lparr>to_delete = [''out/fizz-buzz.py''], files_to_update = [],
          files_to_create = [\<lparr>content = ''print(1)'', path = ''out/fizz-buzz.py''\<rparr>],
          directories_to_create = []\<rparr>"
    by code_simp
  then show ?thesis by simp
qed

text \<open>
  \<^bold>\<open>C1, amended.\<close> For a target mapping whose paths have no empty segment, on a
  filesystem whose directory listings hold file names (non-empty, without a slash), the
  lists of a changeset that \<^verbatim>\<open>compute_changes\<close> returns are pairwise disjoint, except
  that a path may be both on the paths to delete and on the files to create; such a path
  exists on disk and is not a regular file, and deletion is enabled.
\<close>

theorem lists_disjoint_but_type_conflict:
  assumes run: "compute_changes fs state should_delete output = Inr r"
    and segments: "\<forall>p \<in> set (map fst state). [] \<notin> set (str_split CHR ''/'' p)"
    and listings: "valid_fs fs"
  shows "set (directories_to_create r) \<inter> path ` set (files_to_create r) = {}
     \<and> set (directories_to_create r) \<inter> path ` set (files_to_update r) = {}
     \<and> path ` set (files_to_create r) \<inter> path ` set (files_to_update r) = {}
     \<and> set (to_delete r) \<inter> set (directories_to_create r) = {}
     \<and> set (to_delete r) \<inter> path ` set (files_to_update r) = {}
     \<and> (\<forall>p \<in> set (to_delete r) \<inter> path ` set (files_to_create r).
           should_delete \<and> os_path_exists fs p \<and> \<not> os_path_isfile fs p)"
proof -
  let ?cs = "map (\<lambda>(path', t). \<lparr>content = content t, parts = str_split CHR ''/'' path'\<rparr>) state"
  from run have w: "walk_recursive fs should_delete output ?cs no_changes = Inr r"
    by (simp add: compute_changes_def)
  note clash = walk_clash [OF listings state_children_valid [OF segments] w]
  have a: "set (directories_to_create r) \<inter> path ` set (files_to_create r) = {}"
    using clash [of _ Made Created] by fastforce
  have b: "set (directories_to_create r) \<inter> path ` set (files_to_update r) = {}"
    using clash [of _ Made Updated] by fastforce
  have c: "path ` set (files_to_create r) \<inter> path ` set (files_to_update r) = {}"
    using clash [of _ Created Updated] by fastforce
  have d: "set (to_delete r) \<inter> set (directories_to_create r) = {}"
    using clash [of _ Deleted Made] by fastforce
  have e: "set (to_delete r) \<inter> path ` set (files_to_update r) = {}"
    using clash [of _ Deleted Updated] by fastforce
  have f: "\<forall>p \<in> set (to_delete r) \<inter> path ` set (files_to_create r).
           should_delete \<and> os_path_exists fs p \<and> \<not> os_path_isfile fs p"
    using clash [of _ Deleted Created] by fastforce
  from a b c d e f show ?thesis by blast
qed

theorem lists_disjoint_but_type_conflict_witness:
  "compute_changes fs_dir_in_the_way flat_target True ''out'' =
     Inr \<lparr>to_delete = [''out/fizz-buzz.py''], files_to_update = [],
          files_to_create = [\<lparr>content = ''print(1)'', path = ''out/fizz-buzz.py''\<rparr>],
          directories_to_create = []\<rparr>
   \<and> valid_fs fs_dir_in_the_way
   \<and> os_path_exists fs_dir_in_the_way ''out/fizz-buzz.py''
   \<and> \<not> os_path_isfile fs_dir_in_the_way ''out/fizz-buzz.py''"
proof -
  let ?r = "\<lparr>to_delete = [''out/fizz-buzz.py''], files_to_update = [],
          files_to_create = [\<lparr>content = ''print(1)'', path = ''out/fizz-buzz.py''\<rparr>],
          directories_to_create = []\<rparr>"
  have run: "compute_changes fs_dir_in_the_way flat_target True ''out'' = Inr ?r"
    by code_simp
  have segments: "\<forall>p \<in> set (map fst flat_target). [] \<notin> set (str_split CHR ''/'' p)"
    by (simp add: flat_target_def)
  note all = lists_disjoint_but_type_conflict [OF run segments valid_fs_examples(2)]
  then have both: "\<forall>p \<in> set (to_delete ?r) \<inter> path ` set (files_to_create ?r).
      True \<and> os_path_exists fs_dir_in_the_way p \<and> \<not> os_path_isfile fs_dir_in_the_way p"
    by (elim conjE)
  have "''out/fizz-buzz.py'' \<in> set (to_delete ?r) \<inter> path ` set (files_to_create ?r)"
    by simp
  from bspec [OF both this] run valid_fs_examples(2) show ?thesis by simp
qed

text \<open>
  \<^bold>\<open>C5.\<close> The code does not do what the claim says when a name needed as a directory
  exists as a file and deletion is enabled: the walk schedules the deletion and the
  creation and adds the name to \<^verbatim>\<open>explore\<close>, and the recursion into it then calls
  \<^verbatim>\<open>os.listdir\<close> on the file, which still exists; \<^verbatim>\<open>compute_changes\<close> ends with
  \<^verbatim>\<open>NotADirectoryError\<close> and returns no changeset. With deletion disabled the same input
  raises the exception that names the path, and a needed leaf that exists as a directory
  is, with deletion enabled, scheduled for deletion and creation, both as claimed.
\<close>

theorem directory_conflict_with_deletion_raises:
  "compute_changes fs_file_in_the_way nested_target True ''out''
     = Inl (NotADirectoryError ''out/fizz-buzz'')
   \<and> compute_changes fs_file_in_the_way nested_target False ''out''
     = Inl (Exception ''out/fizz-buzz exists and is not a directory'')
   \<and> compute_changes fs_dir_in_the_way flat_target False ''out''
     = Inl (Exception ''out/fizz-buzz.py exists and is not a file'')
   \<and> compute_changes fs_dir_in_the_way flat_target True ''out''
     = Inr \<lparr>to_delete = [''out/fizz-buzz.py''], files_to_update = [],
            files_to_create = [\<lparr>content = ''print(1)'', path = ''out/fizz-buzz.py''\<rparr>],
            directories_to_create = []\<rparr>"
  by code_simp

text \<open>
  \<^bold>\<open>C2.\<close> The code is not idempotent on a content that holds a carriage return. The
  first run on an empty repository schedules the creation of the file; \<^verbatim>\<open>update_files\<close>
  writes the content; the file on disk then equals the target content byte for byte, and
  yet the second run schedules its update, because \<^verbatim>\<open>f.read()\<close> in text mode returns
  \<^verbatim>\<open>"\n"\<close> for the \<^verbatim>\<open>"\r\n"\<close> on disk.
\<close>

theorem second_run_updates_crlf_file:
  "compute_changes fs_empty_root crlf_target True ''out''
     = Inr \<lparr>to_delete = [], files_to_update = [],
            files_to_create =
              [\<lparr>content = ''print(1)'' @ [CHR 0x0D, CHR 0x0A], path = ''out/fizz-buzz.py''\<rparr>],
            directories_to_create = []\<rparr>
   \<and> (case update_files
             \<lparr>to_delete = [], files_to_update = [],
              files_to_create =
                [\<lparr>content = ''print(1)'' @ [CHR 0x0D, CHR 0x0A], path = ''out/fizz-buzz.py''\<rparr>],
              directories_to_create = []\<rparr> fs_empty_root of
          Inl failure \<Rightarrow> None
        | Inr fs' \<Rightarrow>
            Some (fs' ''out/fizz-buzz.py'', compute_changes fs' crlf_target True ''out''))
     = Some (Some (File (''print(1)'' @ [CHR 0x0D, CHR 0x0A])),
             Inr \<lparr>to_delete = [],
                  files_to_update =
                    [\<lparr>content = ''print(1)'' @ [CHR 0x0D, CHR 0x0A],
                      path = ''out/fizz-buzz.py''\<rparr>],
                  files_to_create = [], directories_to_create = []\<rparr>)"
  by code_simp

text \<open>
  The same two runs on a content without carriage return: the second changeset is empty.
\<close>

lemma second_run_empty_without_carriage_return:
  "compute_changes fs_empty_root flat_target True ''out''
     = Inr \<lparr>to_delete = [], files_to_update = [],
            files_to_create = [\<lparr>content = ''print(1)'', path = ''out/fizz-buzz.py''\<rparr>],
            directories_to_create = []\<rparr>
   \<and> (case update_files
             \<lparr>to_delete = [], files_to_update = [],
              files_to_create = [\<lparr>content = ''print(1)'', path = ''out/fizz-buzz.py''\<rparr>],
              directories_to_create = []\<rparr> fs_empty_root of
          Inl failure \<Rightarrow> None
        | Inr fs' \<Rightarrow> Some (compute_changes fs' flat_target True ''out''))
     = Some (Inr no_changes)"
  by code_simp

subsection \<open>The order of the directories to create\<close>













lemma parents_ok_Nil [simp]: "parents_ok G A []"
  by (simp add: parents_ok_def)















subsection \<open>A missing output root\<close>

lemma not_exists_not_kind:
  "\<not> os_path_exists fs p \<Longrightarrow> \<not> os_path_isdir fs p"
  "\<not> os_path_exists fs p \<Longrightarrow> \<not> os_path_isfile fs p"
  using isfile_isdir_exists by blast+

lemma needed_head_scheduled:
  assumes run: "walk_recursive fs sd cur cs no_changes = Inr r"
    and c: "c \<in> set cs" and absent: "\<not> os_path_exists fs (os_path_join cur (hd (parts c)))"
  shows "os_path_join cur (hd (parts c)) \<in> set (directories_to_create r) \<union> path ` set (files_to_create r)"
proof (rule walk_paths [OF run])
  fix listing needed d0 explore
  assume l: "current_listing fs cur = Inr listing" and
    n: "build_needed cs = Inr needed" and
    mem: "\<And>k p. p \<in> set (paths_of k r) \<longleftrightarrow>
        (\<exists>f \<in> set (all_files_of listing needed).
            level_cond fs sd cur needed k f \<and> p = os_path_join cur f) \<or>
        (\<exists>f \<in> set explore. \<exists>d. sub_walk fs sd cur cs f = Inr d \<and> p \<in> set (paths_of k d))"
  let ?f = "hd (parts c)"
  from build_needed_lookup(2) [OF n c] have ne: "parts c \<noteq> []" .
  with c have "c \<in> set (group_of ?f cs)" by (simp add: group_of_def)
  then have g: "group_of ?f cs \<noteq> []" by auto
  with build_needed_lookup(1) [OF n, of ?f]
  have m: "map_of needed ?f = Some (group_of ?f cs)" by simp
  then have key: "?f \<in> set (all_files_of listing needed)"
    by (auto simp: set_all_files_of dest: map_of_SomeD intro: rev_image_eqI)
  from not_exists_not_kind [OF absent] m
  have "level_cond fs sd cur needed Made ?f \<or> level_cond fs sd cur needed Created ?f"
    by (auto simp: level_cond_def)
  then show ?thesis
  proof
    assume "level_cond fs sd cur needed Made ?f"
    with key have "os_path_join cur ?f \<in> set (paths_of Made r)"
      by (subst mem) blast
    then show ?thesis by simp
  next
    assume "level_cond fs sd cur needed Created ?f"
    with key have "os_path_join cur ?f \<in> set (paths_of Created r)"
      by (subst mem) blast
    then show ?thesis by simp
  qed
qed

lemma not_own_extension:
  assumes "rest \<noteq> []"
  shows "d \<noteq> norm_dir d @ rest"
proof
  assume "d = norm_dir d @ rest"
  then have "length d = length (norm_dir d) + length rest" by (metis length_append)
  moreover have "length d \<le> length (norm_dir d)" by (simp add: norm_dir_def)
  ultimately show False using assms by simp
qed

text \<open>
  \<^bold>\<open>C9.\<close> If the output root does not exist (and so nothing exists directly under it)
  and the target mapping is not empty, then, for a changeset that \<^verbatim>\<open>compute_changes\<close>
  returns: the listing of the root is taken to be empty; the root path is in none of the
  four lists; and for every target path the path of its first segment under the root is
  scheduled, as a directory to create or as a file to create, so at least one of these
  two lists is not empty. (Target paths have no empty segment; directory listings hold
  file names.)
\<close>

theorem missing_root_not_scheduled:
  assumes run: "compute_changes fs state should_delete output = Inr r"
    and missing: "\<not> os_path_exists fs output"
    and childless: "\<forall>n. valid_name n \<longrightarrow> \<not> os_path_exists fs (os_path_join output n)"
    and nonempty: "state \<noteq> []"
    and segments: "\<forall>p \<in> set (map fst state). [] \<notin> set (str_split CHR ''/'' p)"
    and listings: "valid_fs fs"
  shows "current_listing fs output = Inr []
     \<and> output \<notin> set (to_delete r)
     \<and> output \<notin> set (directories_to_create r)
     \<and> output \<notin> path ` set (files_to_create r)
     \<and> output \<notin> path ` set (files_to_update r)
     \<and> (\<forall>p \<in> set (map fst state).
           os_path_join output (hd (str_split CHR ''/'' p))
             \<in> set (directories_to_create r) \<union> path ` set (files_to_create r))
     \<and> (directories_to_create r \<noteq> [] \<or> files_to_create r \<noteq> [])"
proof -
  let ?cs = "map (\<lambda>(path', t). \<lparr>content = content t, parts = str_split CHR ''/'' path'\<rparr>) state"
  from run have w: "walk_recursive fs should_delete output ?cs no_changes = Inr r"
    by (simp add: compute_changes_def)
  note vc = state_children_valid [OF segments]
  have listing: "current_listing fs output = Inr []"
    using missing by (simp add: current_listing_def)
  have never: "output \<notin> set (paths_of k r)" for k
  proof
    assume "output \<in> set (paths_of k r)"
    from walk_shape [OF listings vc w this] not_own_extension show False by blast
  qed
  have scheduled: "os_path_join output (hd (str_split CHR ''/'' p))
      \<in> set (directories_to_create r) \<union> path ` set (files_to_create r)"
    if "p \<in> set (map fst state)" for p
  proof -
    from that obtain t where "(p, t) \<in> set state" by auto
    then have c: "\<lparr>content = content t, parts = str_split CHR ''/'' p\<rparr> \<in> set ?cs"
      by force
    have "valid_name (hd (str_split CHR ''/'' p))"
      using vc c unfolding valid_children_def
      by (metis child.select_convs(1) hd_in_set str_split_not_Nil)
    with childless have "\<not> os_path_exists fs (os_path_join output (hd (str_split CHR ''/'' p)))"
      by blast
    with needed_head_scheduled [OF w c] show ?thesis by simp
  qed
  from nonempty obtain p where p: "p \<in> set (map fst state)" by (cases state) auto
  from scheduled [OF p] have some: "directories_to_create r \<noteq> [] \<or> files_to_create r \<noteq> []"
    by auto
  from never [of Deleted] never [of Made] never [of Created] never [of Updated]
  have "output \<notin> set (to_delete r)" "output \<notin> set (directories_to_create r)"
    "output \<notin> path ` set (files_to_create r)" "output \<notin> path ` set (files_to_update r)"
    by simp_all
  with listing scheduled some show ?thesis by blast
qed

theorem missing_root_not_scheduled_witness:
  "compute_changes Map.empty nested_target True ''out''
     = Inr \<lparr>to_delete = [], files_to_update = [],
            files_to_create = [\<lparr>content = ''print(1)'', path = ''out/fizz-buzz/python.py''\<rparr>],
            directories_to_create = [''out/fizz-buzz'']\<rparr>
   \<and> \<not> os_path_exists Map.empty ''out''
   \<and> current_listing Map.empty ''out'' = Inr []
   \<and> ''out'' \<notin> set [''out/fizz-buzz'']
   \<and> ''out'' \<notin> path ` set [\<lparr>content = ''print(1)'', path = ''out/fizz-buzz/python.py''\<rparr>]
   \<and> os_path_join ''out'' (hd (str_split CHR ''/'' ''fizz-buzz/python.py''))
        \<in> set [''out/fizz-buzz'']
          \<union> path ` set [\<lparr>content = ''print(1)'', path = ''out/fizz-buzz/python.py''\<rparr>]"
proof -
  let ?r = "\<lparr>to_delete = [], files_to_update = [],
            files_to_create = [\<lparr>content = ''print(1)'', path = ''out/fizz-buzz/python.py''\<rparr>],
            directories_to_create = [''out/fizz-buzz'']\<rparr>"
  have run: "compute_changes Map.empty nested_target True ''out'' = Inr ?r"
    by code_simp
  have missing: "\<not> os_path_exists Map.empty ''out''"
    by (simp add: os_path_exists_def)
  have childless: "\<forall>n. valid_name n \<longrightarrow> \<not> os_path_exists Map.empty (os_path_join ''out'' n)"
    by (simp add: os_path_exists_def)
  have nonempty: "nested_target \<noteq> []" by (simp add: nested_target_def)
  have segments: "\<forall>p \<in> set (map fst nested_target). [] \<notin> set (str_split CHR ''/'' p)"
    by (simp add: nested_target_def)
  note all = missing_root_not_scheduled [OF run missing childless nonempty segments valid_fs_examples(4)]
  from all have listing: "current_listing Map.empty ''out'' = Inr []" by (elim conjE)
  from all have a: "''out'' \<notin> set (directories_to_create ?r)" by (elim conjE)
  from all have b: "''out'' \<notin> path ` set (files_to_create ?r)" by (elim conjE)
  from all have "\<forall>p \<in> set (map fst nested_target).
           os_path_join ''out'' (hd (str_split CHR ''/'' p))
             \<in> set (directories_to_create ?r) \<union> path ` set (files_to_create ?r)"
    by (elim conjE)
  moreover have "''fizz-buzz/python.py'' \<in> set (map fst nested_target)"
    by (simp add: nested_target_def)
  ultimately have c: "os_path_join ''out'' (hd (str_split CHR ''/'' ''fizz-buzz/python.py''))
             \<in> set (directories_to_create ?r) \<union> path ` set (files_to_create ?r)"
    by (rule bspec)
  from run missing listing a b c show ?thesis by simp
qed

subsection \<open>The ignore list\<close>

lemma descend_simps [simp]:
  "descend cur [] = cur"
  "descend cur (s # segs) = descend (os_path_join cur s) segs"
  by (simp_all add: descend_def)

lemma group_member:
  assumes "c \<in> set cs" and "parts c \<noteq> []"
  shows "c \<in> set (group_of (hd (parts c)) cs)"
  using assms by (simp add: group_of_def)

lemma ignore_protected:
  assumes vfs: "valid_fs fs" and ign: "n \<in> set DEFAULT_IGNORE_LIST"
  shows "valid_children cs \<Longrightarrow> walk_recursive fs sd cur cs no_changes = Inr r \<Longrightarrow>
     \<forall>s \<in> set segs. valid_name s \<Longrightarrow> \<forall>c \<in> set cs. \<not> prefix (segs @ [n]) (parts c) \<Longrightarrow>
     descend cur (segs @ [n]) \<notin> set (to_delete r)"
proof -
  note vn = ignore_valid [OF ign]
  let ?P = "\<lambda>cur cs. valid_children cs \<longrightarrow>
      (\<forall>r segs. walk_recursive fs sd cur cs no_changes = Inr r \<longrightarrow>
         (\<forall>s \<in> set segs. valid_name s) \<longrightarrow> (\<forall>c \<in> set cs. \<not> prefix (segs @ [n]) (parts c)) \<longrightarrow>
         descend cur (segs @ [n]) \<notin> set (paths_of Deleted r))"
  have "?P cur cs"
  proof (rule walk_induct [where fs = fs and sd = sd and P = ?P], intro impI allI)
    fix cur children r segs
    assume IH: "\<And>f listing needed d0 explore.
          current_listing fs cur = Inr listing \<Longrightarrow>
          build_needed children = Inr needed \<Longrightarrow>
          scan fs sd cur needed (all_files_of listing needed) no_changes = Inr (d0, explore) \<Longrightarrow>
          f \<in> set explore \<Longrightarrow>
          ?P (os_path_join cur f) (map advance (group_of f children))"
      and vc: "valid_children children"
      and run: "walk_recursive fs sd cur children no_changes = Inr r"
      and vs: "\<forall>s \<in> set segs. valid_name s"
      and extraneous: "\<forall>c \<in> set children. \<not> prefix (segs @ [n]) (parts c)"
    let ?p = "descend cur (segs @ [n])"
    show "?p \<notin> set (paths_of Deleted r)"
    proof (rule walk_paths [OF run])
      fix listing needed d0 explore
      assume l: "current_listing fs cur = Inr listing" and
        nd: "build_needed children = Inr needed" and
        sc: "scan fs sd cur needed (all_files_of listing needed) no_changes = Inr (d0, explore)" and
        e: "explore = filter (dir_needed needed) (all_files_of listing needed)" and
        mem: "\<And>k p. p \<in> set (paths_of k r) \<longleftrightarrow>
            (\<exists>f \<in> set (all_files_of listing needed).
                level_cond fs sd cur needed k f \<and> p = os_path_join cur f) \<or>
            (\<exists>f \<in> set explore. \<exists>d. sub_walk fs sd cur children f = Inr d \<and> p \<in> set (paths_of k d))"
      let ?names = "set (all_files_of listing needed)"
      note valid = all_files_valid [OF l vfs nd vc]
      have ex_names: "f \<in> ?names" if "f \<in> set explore" for f using that e by simp
      show "?p \<notin> set (paths_of Deleted r)"
      proof
        assume "?p \<in> set (paths_of Deleted r)"
        then have "(\<exists>f \<in> ?names. level_cond fs sd cur needed Deleted f \<and> ?p = os_path_join cur f) \<or>
            (\<exists>f \<in> set explore. \<exists>d. sub_walk fs sd cur children f = Inr d
                \<and> ?p \<in> set (paths_of Deleted d))"
          by (simp only: mem)
        then consider
          (here) f where "f \<in> ?names" "level_cond fs sd cur needed Deleted f" "?p = os_path_join cur f"
          | (below) f d where "f \<in> set explore" "sub_walk fs sd cur children f = Inr d"
              "?p \<in> set (paths_of Deleted d)"
          by blast
        then show False
        proof cases
          case here
          show False
          proof (cases segs)
            case Nil
            with here(3) have "os_path_join cur n = os_path_join cur f" by simp
            from join_inj [OF vn valid [OF here(1)] this] have fn: "f = n" by simp
            show False
            proof (cases "map_of needed n")
              case None
              with here(2) fn ign show False by (simp add: level_cond_def)
            next
              case (Some g)
              with build_needed_lookup(1) [OF nd, of n] have "group_of n children \<noteq> []"
                by (auto split: if_splits)
              then obtain c where "c \<in> set (group_of n children)"
                by (cases "group_of n children") auto
              from group_of_parts [OF this] have "c \<in> set children" "prefix [n] (parts c)"
                by (cases "parts c"; simp)+
              with extraneous Nil show False by auto
            qed
          next
            case (Cons s segs')
            with vs have s: "valid_name s" and rest: "\<forall>x \<in> set (segs' @ [n]). valid_name x"
              using vn by auto
            from descend_shape [OF _ rest, of "os_path_join cur s"]
            obtain tail where "tail \<noteq> []"
              "descend (os_path_join cur s) (segs' @ [n]) = norm_dir (os_path_join cur s) @ tail"
              by auto
            with Cons have "?p = norm_dir cur @ s @ CHR ''/'' # tail"
              by (simp add: norm_join [OF s])
            with here(3) join_valid [OF valid [OF here(1)], of cur]
            have "f = s @ CHR ''/'' # tail" by simp
            with slash_not_in_name [OF valid [OF here(1)]] show False by blast
          qed
        next
          case below
          note vf = valid [OF ex_names [OF below(1)]]
          from sub_shape [OF vfs vc vf below(2) below(3)]
          obtain tail where tail: "?p = norm_dir cur @ f @ CHR ''/'' # tail" by blast
          show False
          proof (cases segs)
            case Nil
            with tail join_valid [OF vn, of cur] have "n = f @ CHR ''/'' # tail" by simp
            with slash_not_in_name [OF vn] show False by blast
          next
            case (Cons s segs')
            with vs have s: "valid_name s" and rest: "\<forall>x \<in> set (segs' @ [n]). valid_name x"
              using vn by auto
            from descend_shape [OF _ rest, of "os_path_join cur s"]
            obtain tail' where "tail' \<noteq> []"
              "descend (os_path_join cur s) (segs' @ [n]) = norm_dir (os_path_join cur s) @ tail'"
              by auto
            with Cons have "?p = norm_dir cur @ s @ CHR ''/'' # tail'"
              by (simp add: norm_join [OF s])
            with tail have "f @ CHR ''/'' # tail = s @ CHR ''/'' # tail'" by simp
            from first_segment [OF vf s this] have fs: "f = s" .
            have ext: "\<forall>c \<in> set (map advance (group_of f children)). \<not> prefix (segs' @ [n]) (parts c)"
            proof
              fix c' assume "c' \<in> set (map advance (group_of f children))"
              then obtain c where c: "c \<in> set (group_of f children)" "c' = advance c" by auto
              from group_of_parts [OF c(1)] have cc: "c \<in> set children" "parts c = f # tl (parts c)"
                by (cases "parts c"; simp)+
              from c(2) have tl: "parts c' = tl (parts c)" by (simp add: advance_def)
              from extraneous cc(1) have "\<not> prefix (segs @ [n]) (parts c)" by (rule bspec)
              then have "\<not> prefix (s # (segs' @ [n])) (f # parts c')"
                using Cons cc(2) tl by simp
              then show "\<not> prefix (segs' @ [n]) (parts c')"
                using fs by simp
            qed
            from vs Cons have vs': "\<forall>x \<in> set segs'. valid_name x" by simp
            note step = IH [OF l nd sc below(1), THEN mp, OF valid_children_group [OF vc],
                rule_format]
            from step [OF below(2) [unfolded sub_walk_def] vs' [rule_format] ext [rule_format]]
            have "descend (os_path_join cur f) (segs' @ [n]) \<notin> set (paths_of Deleted d)" .
            with below(3) Cons fs show False by simp
          qed
        qed
      qed
    qed
  qed
  then show "valid_children cs \<Longrightarrow> walk_recursive fs sd cur cs no_changes = Inr r \<Longrightarrow>
     \<forall>s \<in> set segs. valid_name s \<Longrightarrow> \<forall>c \<in> set cs. \<not> prefix (segs @ [n]) (parts c) \<Longrightarrow>
     descend cur (segs @ [n]) \<notin> set (to_delete r)"
    by simp
qed

lemma scan_conflict_enabled:
  assumes "scan fs sd cur needed names ch = Inr res" and "f \<in> set names"
    and "map_of needed f = Some [fd]" and "\<not> dir_needed needed f"
    and "os_path_exists fs (os_path_join cur f)" and "\<not> os_path_isfile fs (os_path_join cur f)"
  shows sd
proof -
  from for_each_success [OF assms(1) [unfolded scan_def] assms(2)]
  obtain a b where "visit fs sd cur needed f a = Inr b" by blast
  with assms(3-6) show ?thesis
    by (auto simp: visit_def Let_def dir_needed_def split: if_splits)
qed

lemma leaf_processed:
  "walk_recursive fs sd cur cs no_changes = Inr r \<Longrightarrow> c \<in> set cs \<Longrightarrow>
   leaf_due fs k (descend cur (parts c)) (content c) \<Longrightarrow>
   descend cur (parts c) \<in> set (paths_of k r)"
proof -
  let ?P = "\<lambda>cur cs. \<forall>r c. walk_recursive fs sd cur cs no_changes = Inr r \<longrightarrow> c \<in> set cs \<longrightarrow>
      leaf_due fs k (descend cur (parts c)) (content c) \<longrightarrow>
      descend cur (parts c) \<in> set (paths_of k r)"
  have "?P cur cs"
  proof (rule walk_induct [where fs = fs and sd = sd and P = ?P], intro impI allI)
    fix cur children r c
    assume IH: "\<And>f listing needed d0 explore.
          current_listing fs cur = Inr listing \<Longrightarrow>
          build_needed children = Inr needed \<Longrightarrow>
          scan fs sd cur needed (all_files_of listing needed) no_changes = Inr (d0, explore) \<Longrightarrow>
          f \<in> set explore \<Longrightarrow>
          ?P (os_path_join cur f) (map advance (group_of f children))"
      and run: "walk_recursive fs sd cur children no_changes = Inr r"
      and c: "c \<in> set children"
      and due: "leaf_due fs k (descend cur (parts c)) (content c)"
    show "descend cur (parts c) \<in> set (paths_of k r)"
    proof (rule walk_paths [OF run])
      fix listing needed d0 explore
      assume l: "current_listing fs cur = Inr listing" and
        nd: "build_needed children = Inr needed" and
        sc: "scan fs sd cur needed (all_files_of listing needed) no_changes = Inr (d0, explore)" and
        e: "explore = filter (dir_needed needed) (all_files_of listing needed)" and
        every: "\<And>f. f \<in> set explore \<Longrightarrow> \<exists>d. sub_walk fs sd cur children f = Inr d" and
        mem: "\<And>k p. p \<in> set (paths_of k r) \<longleftrightarrow>
            (\<exists>f \<in> set (all_files_of listing needed).
                level_cond fs sd cur needed k f \<and> p = os_path_join cur f) \<or>
            (\<exists>f \<in> set explore. \<exists>d. sub_walk fs sd cur children f = Inr d \<and> p \<in> set (paths_of k d))"
      let ?f = "hd (parts c)"
      let ?g = "group_of ?f children"
      from build_needed_lookup(2) [OF nd c] have ne: "parts c \<noteq> []" .
      then have pc: "parts c = ?f # tl (parts c)" by simp
      from group_member [OF c ne] have cg: "c \<in> set ?g" .
      then have "?g \<noteq> []" by auto
      with build_needed_lookup(1) [OF nd, of ?f] have m: "map_of needed ?f = Some ?g" by simp
      then have key: "?f \<in> set (all_files_of listing needed)"
        by (auto simp: set_all_files_of dest: map_of_SomeD intro: rev_image_eqI)
      show "descend cur (parts c) \<in> set (paths_of k r)"
      proof (cases "dir_needed needed ?f")
        case True
        with key e have ex: "?f \<in> set explore" by simp
        from every [OF ex] obtain d where d: "sub_walk fs sd cur children ?f = Inr d" by blast
        have adv: "advance c \<in> set (map advance ?g)" using cg by simp
        have same: "descend (os_path_join cur ?f) (parts (advance c)) = descend cur (parts c)"
          "content (advance c) = content c"
          using pc by (simp_all add: advance_def) (metis descend_simps(2))
        note step = IH [OF l nd sc ex, rule_format]
        from step [OF d [unfolded sub_walk_def] adv] due same
        have "descend cur (parts c) \<in> set (paths_of k d)" by simp
        with ex d show ?thesis by (subst mem) blast
      next
        case False
        from scan_leaf_single [OF sc key m False] obtain fd where one: "?g = [fd]" by blast
        with cg have fd: "fd = c" by simp
        from False m one fd have "\<not> 1 < length (parts c)" by (simp add: dir_needed_def)
        with pc have single: "parts c = [?f]" by (cases "tl (parts c)") (simp, metis length_Cons less_Suc_eq_0_disj list.size(3) One_nat_def Suc_less_eq)
        then have p: "descend cur (parts c) = os_path_join cur ?f"
          by (metis descend_simps)
        have "level_cond fs sd cur needed k ?f"
        proof -
          from due p consider
            (cr) "k = Created" "\<not> os_path_isfile fs (os_path_join cur ?f)"
            | (de) "k = Deleted" "os_path_exists fs (os_path_join cur ?f)"
                "\<not> os_path_isfile fs (os_path_join cur ?f)"
            | (up) "k = Updated" "os_path_isfile fs (os_path_join cur ?f)"
                "read_text fs (os_path_join cur ?f) \<noteq> Inr (content c)"
            by (auto simp: leaf_due_def)
          then show ?thesis
          proof cases
            case cr
            with m False show ?thesis by (simp add: level_cond_def)
          next
            case de
            from scan_conflict_enabled [OF sc key m [unfolded one] False de(2,3)] have sd .
            with de m False show ?thesis by (simp add: level_cond_def)
          next
            case up
            with m False one fd show ?thesis by (simp add: level_cond_def)
          qed
        qed
        with key p show ?thesis by (subst mem) auto
      qed
    qed
  qed
  then show "walk_recursive fs sd cur cs no_changes = Inr r \<Longrightarrow> c \<in> set cs \<Longrightarrow>
   leaf_due fs k (descend cur (parts c)) (content c) \<Longrightarrow>
   descend cur (parts c) \<in> set (paths_of k r)"
    by blast
qed

text \<open>
  \<^bold>\<open>C6.\<close> In a changeset that \<^verbatim>\<open>compute_changes\<close> returns (target paths without empty
  segment, listings of file names), whatever the deletion setting: a path below the output
  root whose last name is on the ignore list and through which no target path goes is not
  on the paths to delete. And every target path, on the ignore list or not, is processed
  by what is on disk alone: it is on the files to create when no regular file is there, on
  the paths to delete as well when something else occupies it, and on the files to update
  when the regular file there reads differently from the target content.
\<close>

theorem ignore_list_only_for_extraneous:
  assumes run: "compute_changes fs state should_delete output = Inr r"
    and segments: "\<forall>p \<in> set (map fst state). [] \<notin> set (str_split CHR ''/'' p)"
    and listings: "valid_fs fs"
  shows "(\<forall>segs n. n \<in> set DEFAULT_IGNORE_LIST \<longrightarrow> (\<forall>s \<in> set segs. valid_name s) \<longrightarrow>
            (\<forall>p \<in> set (map fst state). \<not> prefix (segs @ [n]) (str_split CHR ''/'' p)) \<longrightarrow>
            descend output (segs @ [n]) \<notin> set (to_delete r))
     \<and> (\<forall>(p, t) \<in> set state.
           (\<not> os_path_isfile fs (descend output (str_split CHR ''/'' p)) \<longrightarrow>
              descend output (str_split CHR ''/'' p) \<in> path ` set (files_to_create r))
         \<and> (os_path_exists fs (descend output (str_split CHR ''/'' p))
              \<and> \<not> os_path_isfile fs (descend output (str_split CHR ''/'' p)) \<longrightarrow>
              descend output (str_split CHR ''/'' p) \<in> set (to_delete r))
         \<and> (os_path_isfile fs (descend output (str_split CHR ''/'' p))
              \<and> read_text fs (descend output (str_split CHR ''/'' p)) \<noteq> Inr (content t) \<longrightarrow>
              descend output (str_split CHR ''/'' p) \<in> path ` set (files_to_update r)))"
proof (intro conjI allI impI)
  let ?cs = "map (\<lambda>(path', t). \<lparr>content = content t, parts = str_split CHR ''/'' path'\<rparr>) state"
  from run have w: "walk_recursive fs should_delete output ?cs no_changes = Inr r"
    by (simp add: compute_changes_def)
  fix segs n
  assume n: "n \<in> set DEFAULT_IGNORE_LIST" and vs: "\<forall>s \<in> set segs. valid_name s"
    and ext: "\<forall>p \<in> set (map fst state). \<not> prefix (segs @ [n]) (str_split CHR ''/'' p)"
  have "\<forall>c \<in> set ?cs. \<not> prefix (segs @ [n]) (parts c)"
  proof
    fix c assume "c \<in> set ?cs"
    then obtain p t where "(p, t) \<in> set state" "parts c = str_split CHR ''/'' p" by auto
    with ext show "\<not> prefix (segs @ [n]) (parts c)" by force
  qed
  from ignore_protected [OF listings n state_children_valid [OF segments] w vs this]
  show "descend output (segs @ [n]) \<notin> set (to_delete r)" .
next
  let ?cs = "map (\<lambda>(path', t). \<lparr>content = content t, parts = str_split CHR ''/'' path'\<rparr>) state"
  from run have w: "walk_recursive fs should_delete output ?cs no_changes = Inr r"
    by (simp add: compute_changes_def)
  show "\<forall>(p, t) \<in> set state.
           (\<not> os_path_isfile fs (descend output (str_split CHR ''/'' p)) \<longrightarrow>
              descend output (str_split CHR ''/'' p) \<in> path ` set (files_to_create r))
         \<and> (os_path_exists fs (descend output (str_split CHR ''/'' p))
              \<and> \<not> os_path_isfile fs (descend output (str_split CHR ''/'' p)) \<longrightarrow>
              descend output (str_split CHR ''/'' p) \<in> set (to_delete r))
         \<and> (os_path_isfile fs (descend output (str_split CHR ''/'' p))
              \<and> read_text fs (descend output (str_split CHR ''/'' p)) \<noteq> Inr (content t) \<longrightarrow>
              descend output (str_split CHR ''/'' p) \<in> path ` set (files_to_update r))"
  proof (intro ballI, clarify, intro conjI impI)
    fix p t assume pt: "(p, t) \<in> set state"
    let ?c = "\<lparr>content = content t, parts = str_split CHR ''/'' p\<rparr>"
    let ?P = "descend output (str_split CHR ''/'' p)"
    from pt have c: "?c \<in> set ?cs" by force
    note due = leaf_processed [OF w c, unfolded leaf_due_def, simplified]
    {
      assume "\<not> os_path_isfile fs ?P"
      with due [of Created] show "?P \<in> path ` set (files_to_create r)" by simp
    }
    {
      assume "os_path_exists fs ?P \<and> \<not> os_path_isfile fs ?P"
      with due [of Deleted] show "?P \<in> set (to_delete r)" by simp
    }
    {
      assume "os_path_isfile fs ?P \<and> read_text fs ?P \<noteq> Inr (content t)"
      with due [of Updated] show "?P \<in> path ` set (files_to_update r)" by simp
    }
  qed
qed

theorem ignore_list_only_for_extraneous_witness:
  "compute_changes fs_with_readme license_target True ''out''
     = Inr \<lparr>to_delete = [''out/old.py''],
            files_to_update = [\<lparr>content = ''MIT'', path = ''out/LICENSE''\<rparr>],
            files_to_create = [\<lparr>content = ''print(1)'', path = ''out/fizz-buzz.py''\<rparr>],
            directories_to_create = []\<rparr>
   \<and> valid_fs fs_with_readme
   \<and> ''README.md'' \<in> set DEFAULT_IGNORE_LIST
   \<and> fs_with_readme ''out/README.md'' = Some (File ''my solutions'')
   \<and> descend ''out'' ([] @ [''README.md'']) \<notin> set [''out/old.py'']
   \<and> ''LICENSE'' \<in> set DEFAULT_IGNORE_LIST
   \<and> descend ''out'' (str_split CHR ''/'' ''LICENSE'')
        \<in> path ` set [\<lparr>content = ''MIT'', path = ''out/LICENSE''\<rparr>]"
proof -
  let ?r = "\<lparr>to_delete = [''out/old.py''],
            files_to_update = [\<lparr>content = ''MIT'', path = ''out/LICENSE''\<rparr>],
            files_to_create = [\<lparr>content = ''print(1)'', path = ''out/fizz-buzz.py''\<rparr>],
            directories_to_create = []\<rparr>"
  have run: "compute_changes fs_with_readme license_target True ''out'' = Inr ?r"
    by code_simp
  have segments: "\<forall>p \<in> set (map fst license_target). [] \<notin> set (str_split CHR ''/'' p)"
    by (simp add: license_target_def)
  have listings: "valid_fs fs_with_readme"
    by (auto simp: valid_fs_def valid_name_def fs_with_readme_def split: if_splits)
  note both = ignore_list_only_for_extraneous [OF run segments listings]
  have readme: "''README.md'' \<in> set DEFAULT_IGNORE_LIST"
    and license: "''LICENSE'' \<in> set DEFAULT_IGNORE_LIST"
    by (simp_all add: DEFAULT_IGNORE_LIST_def)
  have on_disk: "fs_with_readme ''out/README.md'' = Some (File ''my solutions'')"
    by (simp add: fs_with_readme_def)
  have kept: "descend ''out'' ([] @ [''README.md'']) \<notin> set (to_delete ?r)"
    by (rule both [THEN conjunct1, rule_format, OF readme])
       (auto simp: license_target_def)
  have "(''LICENSE'', \<lparr>content = ''MIT'', date = ''2024-01-02''\<rparr>) \<in> set license_target"
    by (simp add: license_target_def)
  from bspec [OF both [THEN conjunct2] this]
  have "os_path_isfile fs_with_readme (descend ''out'' (str_split CHR ''/'' ''LICENSE''))
      \<and> read_text fs_with_readme (descend ''out'' (str_split CHR ''/'' ''LICENSE'')) \<noteq> Inr ''MIT''
    \<longrightarrow> descend ''out'' (str_split CHR ''/'' ''LICENSE'') \<in> path ` set (files_to_update ?r)"
    by simp
  moreover have "os_path_isfile fs_with_readme (descend ''out'' (str_split CHR ''/'' ''LICENSE''))"
    and "read_text fs_with_readme (descend ''out'' (str_split CHR ''/'' ''LICENSE'')) \<noteq> Inr ''MIT''"
    by (simp_all add: os_path_isfile_def read_text_def fs_with_readme_def os_path_join_def)
  ultimately have updated: "descend ''out'' (str_split CHR ''/'' ''LICENSE'')
      \<in> path ` set (files_to_update ?r)"
    by blast
  from run listings readme license on_disk kept updated show ?thesis by simp
qed

end
